theory Spec2Isabelle
  imports Complex_Main
begin

section \<open>Data model (src/types/clerk.ts)\<close>

text \<open>
  \<^verbatim>\<open>JobStatus = 'idle' | 'running' | 'paused' | 'stopped' | 'completed'\<close> and the
  \<^verbatim>\<open>status: 'success' | 'error'\<close> of a result are string unions; they become datatypes.
\<close>

datatype JobStatus = Idle | Running | Paused | Stopped | Completed

datatype ResultStatus = Success | Error

text \<open>
  \<^verbatim>\<open>BulkUserData\<close>: the optional fields are always filled with a string by
  \<^verbatim>\<open>parseUserData\<close> (\<^verbatim>\<open>parts[1] || ''\<close>), so they are strings here.
\<close>

record BulkUserData =
  email :: string
  firstName :: string
  lastName :: string
  password :: string

record UserOperationResult =
  r_email :: string
  r_status :: ResultStatus
  r_message :: string
  r_userId :: "string option"

text \<open>
  What \<^verbatim>\<open>response.json()\<close> yields for \<^verbatim>\<open>POST /api/import-user\<close>, and so what the loop
  pushes onto \<^verbatim>\<open>newResults\<close>: a result object, or the object \<^verbatim>\<open>{ message }\<close> that the
  endpoint sends when \<^verbatim>\<open>!user || !accountId\<close>. The type annotation
  \<^verbatim>\<open>UserOperationResult\<close> is not checked at run time; on the second object
  \<^verbatim>\<open>result.status\<close> is \<^verbatim>\<open>undefined\<close>.
\<close>

datatype import_body = ResultBody UserOperationResult | MessageBody string

definition body_status :: "import_body \<Rightarrow> ResultStatus option" where
  "body_status b = (case b of ResultBody r \<Rightarrow> Some (r_status r) | MessageBody m \<Rightarrow> None)"

text \<open>
  \<^verbatim>\<open>ImportJob\<close>. The JavaScript numbers are modelled as follows: the counters and
  \<^verbatim>\<open>timeElapsed\<close> only ever grow by one from zero (\<open>nat\<close>); \<^verbatim>\<open>delayInSeconds\<close> and
  \<^verbatim>\<open>countdown\<close> are integers that may be decremented below zero (\<open>int\<close>);
  \<^verbatim>\<open>progress\<close> is the quotient \<^verbatim>\<open>((i + 1) / users.length) * 100\<close>, taken as an exact
  real number. The three \<^verbatim>\<open>...Ref\<close> fields of the job object are never read or written by
  the controller (it uses \<^verbatim>\<open>jobRefs\<close>); they are carried as plain values.
\<close>

record ImportJob =
  status :: JobStatus
  results :: "import_body list"
  progress :: real
  timeElapsed :: nat
  successCount :: nat
  failCount :: nat
  isPausedRef :: bool
  isStoppedRef :: bool
  timerRef :: "nat option"
  showStats :: bool
  userEmails :: string
  sendInvites :: bool
  delayInSeconds :: int
  countdown :: int
  nextUserEmail :: "string option"

text \<open>\<^verbatim>\<open>Partial<ImportJob>\<close>: every field optional.\<close>

record PartialImportJob =
  p_status :: "JobStatus option"
  p_results :: "import_body list option"
  p_progress :: "real option"
  p_timeElapsed :: "nat option"
  p_successCount :: "nat option"
  p_failCount :: "nat option"
  p_isPausedRef :: "bool option"
  p_isStoppedRef :: "bool option"
  p_timerRef :: "nat option option"
  p_showStats :: "bool option"
  p_userEmails :: "string option"
  p_sendInvites :: "bool option"
  p_delayInSeconds :: "int option"
  p_countdown :: "int option"
  p_nextUserEmail :: "string option option"

definition initialJobState :: ImportJob where
  "initialJobState =
     \<lparr> status = Idle, results = [], progress = 0, timeElapsed = 0,
       successCount = 0, failCount = 0,
       isPausedRef = False, isStoppedRef = False, timerRef = None,
       showStats = False, userEmails = [], sendInvites = True,
       delayInSeconds = 1, countdown = 0, nextUserEmail = None \<rparr>"

text \<open>The empty object literal \<^verbatim>\<open>{}\<close> as a partial job.\<close>

definition no_updates :: PartialImportJob where
  "no_updates =
     \<lparr> p_status = None, p_results = None, p_progress = None, p_timeElapsed = None,
       p_successCount = None, p_failCount = None,
       p_isPausedRef = None, p_isStoppedRef = None, p_timerRef = None,
       p_showStats = None, p_userEmails = None, p_sendInvites = None,
       p_delayInSeconds = None, p_countdown = None, p_nextUserEmail = None \<rparr>"

text \<open>A complete job object passed where a \<^verbatim>\<open>Partial<ImportJob>\<close> is expected.\<close>

definition all_fields :: "ImportJob \<Rightarrow> PartialImportJob" where
  "all_fields j =
     \<lparr> p_status = Some (status j), p_results = Some (results j),
       p_progress = Some (progress j), p_timeElapsed = Some (timeElapsed j),
       p_successCount = Some (successCount j), p_failCount = Some (failCount j),
       p_isPausedRef = Some (isPausedRef j), p_isStoppedRef = Some (isStoppedRef j),
       p_timerRef = Some (timerRef j), p_showStats = Some (showStats j),
       p_userEmails = Some (userEmails j), p_sendInvites = Some (sendInvites j),
       p_delayInSeconds = Some (delayInSeconds j), p_countdown = Some (countdown j),
       p_nextUserEmail = Some (nextUserEmail j) \<rparr>"

text \<open>The object spread \<^verbatim>\<open>{ ...job, ...updates }\<close>.\<close>

definition or_else :: "'a option \<Rightarrow> 'a \<Rightarrow> 'a" where
  "or_else u v = (case u of Some w \<Rightarrow> w | None \<Rightarrow> v)"

definition spread :: "ImportJob \<Rightarrow> PartialImportJob \<Rightarrow> ImportJob" where
  "spread j u =
     \<lparr> status = or_else (p_status u) (status j),
       results = or_else (p_results u) (results j),
       progress = or_else (p_progress u) (progress j),
       timeElapsed = or_else (p_timeElapsed u) (timeElapsed j),
       successCount = or_else (p_successCount u) (successCount j),
       failCount = or_else (p_failCount u) (failCount j),
       isPausedRef = or_else (p_isPausedRef u) (isPausedRef j),
       isStoppedRef = or_else (p_isStoppedRef u) (isStoppedRef j),
       timerRef = or_else (p_timerRef u) (timerRef j),
       showStats = or_else (p_showStats u) (showStats j),
       userEmails = or_else (p_userEmails u) (userEmails j),
       sendInvites = or_else (p_sendInvites u) (sendInvites j),
       delayInSeconds = or_else (p_delayInSeconds u) (delayInSeconds j),
       countdown = or_else (p_countdown u) (countdown j),
       nextUserEmail = or_else (p_nextUserEmail u) (nextUserEmail j) \<rparr>"

section \<open>The provider's state (src/contexts/ClerkAccountsContext.tsx)\<close>

text \<open>
  \<^verbatim>\<open>jobRefs[accountId]\<close>: the pause flag, the stop flag and the handle of the
  elapsed-time interval.
\<close>

record JobRefs =
  ref_isPaused :: bool
  ref_isStopped :: bool
  ref_timer :: "nat option"

text \<open>
  One invocation of the async function \<^verbatim>\<open>startImportJob\<close>: its parameters, its locals
  \<^verbatim>\<open>i\<close>, \<^verbatim>\<open>newResults\<close>, \<^verbatim>\<open>currentJobSettings\<close>, and the \<^verbatim>\<open>await\<close> it is suspended at.
\<close>

datatype suspension = AwaitPoll | AwaitCountdown | AwaitFetch | Returned

record run_loop =
  l_accountId :: string
  l_users :: "BulkUserData list"
  l_i :: nat
  l_newResults :: "import_body list"
  l_settings :: ImportJob
  l_at :: suspension

text \<open>The body of one \<^verbatim>\<open>POST /api/import-user\<close> request sent by the loop.\<close>

record import_request =
  q_user :: BulkUserData
  q_accountId :: string
  q_sendInvites :: bool

text \<open>
  The whole state: the React state \<^verbatim>\<open>importJobs\<close>, the mutable \<^verbatim>\<open>jobRefs\<close>, the pending
  invocations of \<^verbatim>\<open>startImportJob\<close>, the live \<^verbatim>\<open>setInterval\<close> handles of the elapsed-time
  tickers (handle to account), and three logs of effects: the requests sent, the toast
  titles shown, and every job value written to \<^verbatim>\<open>importJobs\<close> (what an observer of the
  state can see, in order). \<open>crashed\<close> records a \<^verbatim>\<open>TypeError\<close> from reading a field of
  \<^verbatim>\<open>prev[accountId]\<close> when the account has no job.
\<close>

record sys =
  importJobs :: "string \<rightharpoonup> ImportJob"
  jobRefs :: "string \<rightharpoonup> JobRefs"
  loops :: "nat \<rightharpoonup> run_loop"
  nextLoop :: nat
  intervals :: "nat \<rightharpoonup> string"
  nextTimer :: nat
  requests :: "import_request list"
  toasts :: "string list"
  published :: "(string \<times> ImportJob) list"
  crashed :: bool

definition initial_sys :: sys where
  "initial_sys =
     \<lparr> importJobs = Map.empty, jobRefs = Map.empty, loops = Map.empty, nextLoop = 0,
       intervals = Map.empty, nextTimer = 0, requests = [], toasts = [],
       published = [], crashed = False \<rparr>"

text \<open>\<^verbatim>\<open>importJobs[accountId] || initialJobState\<close>.\<close>

definition getJob :: "sys \<Rightarrow> string \<Rightarrow> ImportJob" where
  "getJob st a = or_else (importJobs st a) initialJobState"

text \<open>One call of \<^verbatim>\<open>setImportJobs\<close> that replaces the job of one account.\<close>

definition publish :: "string \<Rightarrow> ImportJob \<Rightarrow> sys \<Rightarrow> sys" where
  "publish a j st =
     st\<lparr> importJobs := (importJobs st)(a \<mapsto> j), published := published st @ [(a, j)] \<rparr>"

text \<open>
  \<^verbatim>\<open>updateJobState(accountId, updates)\<close>:
  \<^verbatim>\<open>{ ...prev, [accountId]: { ...(prev[accountId] || initialJobState), ...updates } }\<close>.
\<close>

definition updateJobState :: "string \<Rightarrow> PartialImportJob \<Rightarrow> sys \<Rightarrow> sys" where
  "updateJobState a u st = publish a (spread (getJob st a) u) st"

text \<open>
  \<^verbatim>\<open>setImportJobs(prev => ({ ...prev, [accountId]: { ...prev[accountId], f: e } }))\<close>
  where \<^verbatim>\<open>e\<close> reads a field of \<^verbatim>\<open>prev[accountId]\<close>: a \<^verbatim>\<open>TypeError\<close> when the account has
  no job.
\<close>

definition modifyJob :: "string \<Rightarrow> (ImportJob \<Rightarrow> ImportJob) \<Rightarrow> sys \<Rightarrow> sys" where
  "modifyJob a f st =
     (case importJobs st a of
        None \<Rightarrow> st\<lparr> crashed := True \<rparr>
      | Some j \<Rightarrow> publish a (f j) st)"

definition toast :: "string \<Rightarrow> sys \<Rightarrow> sys" where
  "toast t st = st\<lparr> toasts := toasts st @ [t] \<rparr>"

text \<open>
  \<^verbatim>\<open>if (jobRefs[accountId].timerRef.current) clearInterval(...)\<close>: the handle stays in
  \<^verbatim>\<open>timerRef\<close>, the interval is gone.
\<close>

definition clearTimer :: "string \<Rightarrow> sys \<Rightarrow> sys" where
  "clearTimer a st =
     (case jobRefs st a of
        None \<Rightarrow> st
      | Some r \<Rightarrow>
          (case ref_timer r of
             None \<Rightarrow> st
           | Some t \<Rightarrow> st\<lparr> intervals := (intervals st)(t := None) \<rparr>))"

text \<open>
  \<^verbatim>\<open>jobRefs[accountId].timerRef.current = setInterval(tick, 1000)\<close>: a fresh handle.
\<close>

definition setTimer :: "string \<Rightarrow> sys \<Rightarrow> sys" where
  "setTimer a st =
     (case jobRefs st a of
        None \<Rightarrow> st\<lparr> crashed := True \<rparr>
      | Some r \<Rightarrow>
          st\<lparr> intervals := (intervals st)(nextTimer st \<mapsto> a),
              jobRefs := (jobRefs st)(a \<mapsto> r\<lparr> ref_timer := Some (nextTimer st) \<rparr>),
              nextTimer := Suc (nextTimer st) \<rparr>)"

section \<open>The import endpoint (backend/server.js)\<close>

text \<open>
  \<^verbatim>\<open>accounts.json\<close> as \<^verbatim>\<open>readAccounts\<close> returns it, and \<^verbatim>\<open>getSecretKey\<close>, which throws
  \<^verbatim>\<open>'Account not found'\<close> (here \<open>None\<close>) when no account has the id.
\<close>

record account =
  acc_id :: string
  acc_secretKey :: string

definition getSecretKey :: "account list \<Rightarrow> string \<Rightarrow> string option" where
  "getSecretKey accounts accountId =
     map_option acc_secretKey (find (\<lambda>acc. acc_id acc = accountId) accounts)"

text \<open>
  The call to the identity provider: the endpoint with its payload, under the secret key.
  The reply is the \<^verbatim>\<open>ok\<close> flag with the fields the handler reads from the body
  (\<^verbatim>\<open>data.id\<close>, \<^verbatim>\<open>data.user.id\<close>, \<^verbatim>\<open>data.errors?.[0]?.long_message\<close>), or a failure: \<^verbatim>\<open>fetch\<close>
  threw, the body was not JSON, or reading a field of it threw.
\<close>

datatype clerk_request =
    Invitations string string string string
  | Users string string string string string

record clerk_data =
  d_id :: "string option"
  d_user_id :: "string option"
  d_long_message :: "string option"

datatype clerk_reply = Replied bool clerk_data | Failed

text \<open>\<^verbatim>\<open>x || y\<close> on an optional string: \<^verbatim>\<open>undefined\<close>, \<^verbatim>\<open>null\<close> and \<^verbatim>\<open>''\<close> are falsy.\<close>

definition or_string :: "string option \<Rightarrow> string option \<Rightarrow> string option" where
  "or_string x y = (case x of None \<Rightarrow> y | Some s \<Rightarrow> if s = [] then y else Some s)"

text \<open>
  The call the handler makes for a request: an invitation when \<^verbatim>\<open>sendInvites\<close> is set, the
  creation of the user otherwise.
\<close>

definition clerk_call :: "string \<Rightarrow> import_request \<Rightarrow> clerk_request" where
  "clerk_call secretKey req =
     (let user = q_user req in
      if q_sendInvites req
      then Invitations secretKey (email user) (firstName user) (lastName user)
      else Users secretKey (email user) (firstName user) (lastName user) (password user))"

text \<open>
  \<^verbatim>\<open>app.post('/api/import-user', ...)\<close>: the HTTP status and the body. \<^verbatim>\<open>user\<close> is an
  object, so \<^verbatim>\<open>!user\<close> is false; \<^verbatim>\<open>!accountId\<close> holds for the empty string.
\<close>

definition import_user ::
  "account list \<Rightarrow> (clerk_request \<Rightarrow> clerk_reply) \<Rightarrow> import_request \<Rightarrow> nat \<times> import_body" where
  "import_user accounts clerk req =
     (let user = q_user req in
      if q_accountId req = [] then
        (400, MessageBody ''User data and accountId are required'')
      else
        (case getSecretKey accounts (q_accountId req) of
           None \<Rightarrow>
             (404, ResultBody \<lparr> r_email = email user, r_status = Error,
                               r_message = ''Account not found.'', r_userId = None \<rparr>)
         | Some secretKey \<Rightarrow>
             (case clerk (clerk_call secretKey req) of
                Failed \<Rightarrow>
                  (500, ResultBody \<lparr> r_email = email user, r_status = Error,
                                    r_message = ''Failed to connect to the Clerk API.'',
                                    r_userId = None \<rparr>)
              | Replied ok data \<Rightarrow>
                  if ok then
                    (200, ResultBody \<lparr> r_email = email user, r_status = Success,
                                      r_message = (if q_sendInvites req
                                                   then ''Invitation sent''
                                                   else ''User created''),
                                      r_userId = or_string (d_id data) (d_user_id data) \<rparr>)
                  else
                    (400, ResultBody \<lparr> r_email = email user, r_status = Error,
                                      r_message = (case or_string (d_long_message data) None of
                                                     Some m \<Rightarrow> m
                                                   | None \<Rightarrow> ''An API error occurred.''),
                                      r_userId = None \<rparr>))))"

section \<open>The run loop of \<^verbatim>\<open>startImportJob\<close>\<close>

text \<open>
  The async function runs synchronously from one \<^verbatim>\<open>await\<close> to the next. Each function
  below is one such stretch of code; \<open>k\<close> names the invocation and \<open>L\<close> holds its
  locals at that point. \<^verbatim>\<open>users[i]\<close> out of range would be \<^verbatim>\<open>undefined\<close>, and the
  property read on it a \<^verbatim>\<open>TypeError\<close>; so would \<^verbatim>\<open>jobRefs[accountId]\<close> be for an
  account without refs.
\<close>

definition user_at :: "run_loop \<Rightarrow> BulkUserData option" where
  "user_at L = (if l_i L < length (l_users L) then Some (l_users L ! l_i L) else None)"

definition suspend :: "nat \<Rightarrow> run_loop \<Rightarrow> suspension \<Rightarrow> sys \<Rightarrow> sys" where
  "suspend k L s st = st\<lparr> loops := (loops st)(k \<mapsto> L\<lparr> l_at := s \<rparr>) \<rparr>"

text \<open>
  The code after the \<^verbatim>\<open>for\<close> loop: clear the elapsed-time interval, set the final status
  from the stop flag, and announce completion when not stopped.
\<close>

definition after_loop :: "nat \<Rightarrow> run_loop \<Rightarrow> sys \<Rightarrow> sys" where
  "after_loop k L st =
     (case jobRefs st (l_accountId L) of
        None \<Rightarrow> st\<lparr> crashed := True \<rparr>
      | Some r \<Rightarrow>
          (let st1 = clearTimer (l_accountId L) st;
               st2 = updateJobState (l_accountId L)
                       (no_updates\<lparr> p_status :=
                          Some (if ref_isStopped r then Stopped else Completed) \<rparr>) st1;
               st3 = (if \<not> ref_isStopped r then toast ''Import Complete'' st2 else st2)
           in suspend k L Returned st3))"

text \<open>The \<^verbatim>\<open>fetch\<close> of \<^verbatim>\<open>/import-user\<close> with the settings captured at start.\<close>

definition issue_fetch :: "nat \<Rightarrow> run_loop \<Rightarrow> BulkUserData \<Rightarrow> sys \<Rightarrow> sys" where
  "issue_fetch k L user st =
     suspend k L AwaitFetch
       (st\<lparr> requests := requests st @
               [\<lparr> q_user = user, q_accountId = l_accountId L,
                  q_sendInvites = sendInvites (l_settings L) \<rparr>] \<rparr>)"

text \<open>
  From the second stop check (after the pause loop) to the next \<^verbatim>\<open>await\<close>: the countdown
  for a record that is not the first when the captured delay is positive, the request
  otherwise.
\<close>

definition after_pause :: "nat \<Rightarrow> run_loop \<Rightarrow> sys \<Rightarrow> sys" where
  "after_pause k L st =
     (case jobRefs st (l_accountId L) of
        None \<Rightarrow> st\<lparr> crashed := True \<rparr>
      | Some r \<Rightarrow>
          if ref_isStopped r then after_loop k L (toast ''Job Ended'' st)
          else
            (case user_at L of
               None \<Rightarrow> st\<lparr> crashed := True \<rparr>
             | Some user \<Rightarrow>
                 if 0 < l_i L \<and> 0 < delayInSeconds (l_settings L) then
                   suspend k L AwaitCountdown
                     (updateJobState (l_accountId L)
                        (no_updates\<lparr> p_nextUserEmail := Some (Some (email user)),
                                     p_countdown := Some (delayInSeconds (l_settings L)) \<rparr>)
                        st)
                 else issue_fetch k L user st))"

text \<open>
  The loop condition \<^verbatim>\<open>i < users.length\<close>, the first stop check and the first test of
  the pause flag.
\<close>

definition loop_head :: "nat \<Rightarrow> run_loop \<Rightarrow> sys \<Rightarrow> sys" where
  "loop_head k L st =
     (if l_i L < length (l_users L) then
        (case jobRefs st (l_accountId L) of
           None \<Rightarrow> st\<lparr> crashed := True \<rparr>
         | Some r \<Rightarrow>
             if ref_isStopped r then after_loop k L (toast ''Job Ended'' st)
             else if ref_isPaused r then suspend k L AwaitPoll st
             else after_pause k L st)
      else after_loop k L st)"

text \<open>
  The 200 ms timeout inside \<^verbatim>\<open>while (isPausedRef.current)\<close> has elapsed: leave the
  loop on stop, wait again while still paused.
\<close>

definition poll_wake :: "nat \<Rightarrow> run_loop \<Rightarrow> sys \<Rightarrow> sys" where
  "poll_wake k L st =
     (case jobRefs st (l_accountId L) of
        None \<Rightarrow> st\<lparr> crashed := True \<rparr>
      | Some r \<Rightarrow>
          if ref_isStopped r then after_pause k L st
          else if ref_isPaused r then suspend k L AwaitPoll st
          else after_pause k L st)"

text \<open>
  One firing of the countdown interval: write \<^verbatim>\<open>countdown - 1\<close>; when that is not
  positive, clear the interval and resolve, upon which the loop clears
  \<^verbatim>\<open>nextUserEmail\<close> and \<^verbatim>\<open>countdown\<close> and sends the request.
\<close>

definition countdown_tick :: "nat \<Rightarrow> run_loop \<Rightarrow> sys \<Rightarrow> sys" where
  "countdown_tick k L st =
     (case importJobs st (l_accountId L) of
        None \<Rightarrow> st\<lparr> crashed := True \<rparr>
      | Some j \<Rightarrow>
          (let newCountdown = countdown j - 1;
               st1 = publish (l_accountId L) (j\<lparr> countdown := newCountdown \<rparr>) st
           in if newCountdown \<le> 0 then
                (case user_at L of
                   None \<Rightarrow> st1\<lparr> crashed := True \<rparr>
                 | Some user \<Rightarrow>
                     issue_fetch k L user
                       (updateJobState (l_accountId L)
                          (no_updates\<lparr> p_nextUserEmail := Some None,
                                       p_countdown := Some 0 \<rparr>) st1))
              else st1))"

text \<open>The request the loop sends for record \<open>i\<close>.\<close>

definition request_for :: "run_loop \<Rightarrow> nat \<Rightarrow> import_request" where
  "request_for L i =
     \<lparr> q_user = l_users L ! i, q_accountId = l_accountId L,
       q_sendInvites = sendInvites (l_settings L) \<rparr>"

text \<open>
  The request has settled. Either the endpoint has answered it, with \<^verbatim>\<open>accounts.json\<close>
  holding \<open>accounts\<close> and the identity provider behaving as \<open>clerk\<close>, and
  \<^verbatim>\<open>response.json()\<close> gave the body it sent (the page does not look at the HTTP status);
  or \<^verbatim>\<open>fetch\<close> or \<^verbatim>\<open>json()\<close> threw, and the \<^verbatim>\<open>catch\<close> builds an error result. The
  request answered is the one the invocation sent: its user, account id and
  \<^verbatim>\<open>sendInvites\<close> are locals that do not change while the request is in flight.
\<close>

datatype fetch_outcome = Served "account list" "clerk_request \<Rightarrow> clerk_reply" | Threw

definition result_of :: "import_request \<Rightarrow> fetch_outcome \<Rightarrow> import_body" where
  "result_of req out =
     (case out of
        Served accounts clerk \<Rightarrow> snd (import_user accounts clerk req)
      | Threw \<Rightarrow>
          ResultBody \<lparr> r_email = email (q_user req), r_status = Error,
                       r_message = ''Failed to connect to backend.'', r_userId = None \<rparr>)"

text \<open>
  The state update after each record (lines 534 to 546): a counter moves only when
  \<^verbatim>\<open>result.status\<close> is the string it is compared with.
\<close>

definition record_result ::
  "run_loop \<Rightarrow> import_body \<Rightarrow> ImportJob \<Rightarrow> ImportJob" where
  "record_result L result currentJob =
     currentJob\<lparr> results := l_newResults L,
                 progress := (real (l_i L + 1) / real (length (l_users L))) * 100,
                 successCount := (if body_status result = Some Success
                                  then successCount currentJob + 1
                                  else successCount currentJob),
                 failCount := (if body_status result = Some Error
                               then failCount currentJob + 1
                               else failCount currentJob) \<rparr>"

definition fetch_done :: "nat \<Rightarrow> run_loop \<Rightarrow> fetch_outcome \<Rightarrow> sys \<Rightarrow> sys" where
  "fetch_done k L out st =
     (case user_at L of
        None \<Rightarrow> st\<lparr> crashed := True \<rparr>
      | Some user \<Rightarrow>
          (let result = result_of \<lparr> q_user = user, q_accountId = l_accountId L,
                                     q_sendInvites = sendInvites (l_settings L) \<rparr> out;
               L1 = L\<lparr> l_newResults := l_newResults L @ [result] \<rparr>;
               st1 = modifyJob (l_accountId L) (record_result L1 result) st
           in loop_head k (L1\<lparr> l_i := l_i L + 1 \<rparr>) st1))"

text \<open>The elapsed-time interval with handle \<open>t\<close> fires.\<close>

definition elapsed_tick :: "nat \<Rightarrow> sys \<Rightarrow> sys" where
  "elapsed_tick t st =
     (case intervals st t of
        None \<Rightarrow> st
      | Some a \<Rightarrow> modifyJob a (\<lambda>j. j\<lparr> timeElapsed := timeElapsed j + 1 \<rparr>) st)"

section \<open>The controller operations\<close>

text \<open>
  \<^verbatim>\<open>startImportJob\<close> up to its first \<^verbatim>\<open>await\<close>. \<^verbatim>\<open>currentJobSettings\<close> is read before
  the reset. The new invocation is entered in \<open>loops\<close> and at once run from the loop
  head, which sets where it is suspended.
\<close>

definition startImportJob :: "string \<Rightarrow> BulkUserData list \<Rightarrow> sys \<Rightarrow> sys" where
  "startImportJob a users st =
     (let r0 = or_else (jobRefs st a)
                 \<lparr> ref_isPaused = False, ref_isStopped = False, ref_timer = None \<rparr>;
          st1 = st\<lparr> jobRefs := (jobRefs st)
                       (a \<mapsto> r0\<lparr> ref_isPaused := False, ref_isStopped := False \<rparr>) \<rparr>;
          currentJobSettings = getJob st a;
          st2 = updateJobState a
                  (no_updates\<lparr> p_status := Some Running, p_results := Some [],
                               p_progress := Some 0, p_timeElapsed := Some 0,
                               p_successCount := Some 0, p_failCount := Some 0,
                               p_showStats := Some True, p_countdown := Some 0,
                               p_nextUserEmail := Some None \<rparr>) st1;
          st3 = setTimer a st2;
          k = nextLoop st3;
          L = \<lparr> l_accountId = a, l_users = users, l_i = 0, l_newResults = [],
                l_settings = currentJobSettings, l_at = Returned \<rparr>;
          st4 = st3\<lparr> loops := (loops st3)(k \<mapsto> L), nextLoop := Suc k \<rparr>
      in loop_head k L st4)"

definition pauseImportJob :: "string \<Rightarrow> sys \<Rightarrow> sys" where
  "pauseImportJob a st =
     (case jobRefs st a of
        None \<Rightarrow> st
      | Some r \<Rightarrow>
          clearTimer a
            (updateJobState a (no_updates\<lparr> p_status := Some Paused \<rparr>)
               (st\<lparr> jobRefs := (jobRefs st)(a \<mapsto> r\<lparr> ref_isPaused := True \<rparr>) \<rparr>)))"

definition resumeImportJob :: "string \<Rightarrow> sys \<Rightarrow> sys" where
  "resumeImportJob a st =
     (case jobRefs st a of
        None \<Rightarrow> st
      | Some r \<Rightarrow>
          setTimer a
            (updateJobState a (no_updates\<lparr> p_status := Some Running \<rparr>)
               (st\<lparr> jobRefs := (jobRefs st)(a \<mapsto> r\<lparr> ref_isPaused := False \<rparr>) \<rparr>)))"

definition stopImportJob :: "string \<Rightarrow> sys \<Rightarrow> sys" where
  "stopImportJob a st =
     (case jobRefs st a of
        None \<Rightarrow> st
      | Some r \<Rightarrow>
          clearTimer a
            (st\<lparr> jobRefs := (jobRefs st)(a \<mapsto> r\<lparr> ref_isStopped := True \<rparr>) \<rparr>))"

definition clearImportJob :: "string \<Rightarrow> sys \<Rightarrow> sys" where
  "clearImportJob a st = updateJobState a (all_fields initialJobState) st"

definition updateJobSettings :: "string \<Rightarrow> PartialImportJob \<Rightarrow> sys \<Rightarrow> sys" where
  "updateJobSettings a settings st = updateJobState a settings st"

section \<open>The import page (src/pages/BulkImport.tsx)\<close>

text \<open>
  Strings are lists of 8-bit characters. \<^verbatim>\<open>String.prototype.trim\<close> strips white space
  and line terminators from both ends; of those, the ones below 128 are modelled (tab,
  line feed, vertical tab, form feed, carriage return, space).
\<close>

definition is_space :: "char \<Rightarrow> bool" where
  "is_space c = (c \<in> set [CHR 0x09, CHR 0x0A, CHR 0x0B, CHR 0x0C, CHR 0x0D, CHR 0x20])"

definition trim :: "string \<Rightarrow> string" where
  "trim s = rev (dropWhile is_space (rev (dropWhile is_space s)))"

text \<open>\<^verbatim>\<open>s.split(c)\<close> for a one-character separator: never empty, \<^verbatim>\<open>''.split(c)\<close> is \<^verbatim>\<open>['']\<close>.\<close>

fun split :: "char \<Rightarrow> string \<Rightarrow> string list" where
  "split c [] = [[]]"
| "split c (x # xs) =
     (if x = c then [] # split c xs
      else (case split c xs of
              [] \<Rightarrow> [[x]]
            | p # ps \<Rightarrow> (x # p) # ps))"

text \<open>\<^verbatim>\<open>parts[n] || ''\<close>: the empty string when the part is missing.\<close>

definition part :: "string list \<Rightarrow> nat \<Rightarrow> string" where
  "part parts n = (if n < length parts then parts ! n else [])"

definition parseLine :: "string \<Rightarrow> BulkUserData" where
  "parseLine line =
     (let parts = map trim (split CHR '','' line)
      in \<lparr> email = part parts 0, firstName = part parts 1,
           lastName = part parts 2, password = part parts 3 \<rparr>)"

definition parseUserData :: "string \<Rightarrow> BulkUserData list" where
  "parseUserData text =
     filter (\<lambda>user. email user \<noteq> [] \<and> CHR ''@'' \<in> set (email user))
       (map parseLine
          (filter (\<lambda>line. trim line \<noteq> []) (split CHR 0x0A (trim text))))"

definition isJobRunning :: "ImportJob \<Rightarrow> bool" where
  "isJobRunning job = (status job = Running \<or> status job = Paused)"

text \<open>
  \<^verbatim>\<open>handleStartImport\<close>, with \<^verbatim>\<open>activeAccount\<close> as an option and \<^verbatim>\<open>job\<close> the job of the
  active account (\<^verbatim>\<open>importJobs[activeAccount.id] || initialJobState\<close>).
\<close>

definition handleStartImport :: "string option \<Rightarrow> sys \<Rightarrow> sys" where
  "handleStartImport activeAccount st =
     (case activeAccount of
        None \<Rightarrow> st
      | Some a \<Rightarrow>
          (let job = getJob st a;
               users = parseUserData (userEmails job)
           in if length users = 0 then toast ''Invalid Data'' st
              else if \<not> sendInvites job \<and> list_ex (\<lambda>u. password u = []) users
                then toast ''Missing Passwords'' st
              else startImportJob a users st))"

definition handleClearAll :: "string option \<Rightarrow> sys \<Rightarrow> sys" where
  "handleClearAll activeAccount st =
     (case activeAccount of
        None \<Rightarrow> st
      | Some a \<Rightarrow> toast ''Cleared'' (clearImportJob a st))"

text \<open>
  What the operator can do on the page while account \<open>a\<close> is active. The three setters
  are the \<^verbatim>\<open>onChange\<close> handlers of the inputs, which are never disabled. (File upload and
  password generation end in \<^verbatim>\<open>setUserEmails\<close> with some text.)
\<close>

datatype ui_action =
    SetUserEmails string
  | SetSendInvites bool
  | SetDelayInSeconds int
  | ClickStartImport
  | ClickPause
  | ClickResume
  | ClickEndJob
  | ClickClearAll

text \<open>
  The buttons as the page renders them: Start Import is rendered when the status is idle,
  stopped or completed, and is disabled when \<^verbatim>\<open>isJobRunning || !job.userEmails.trim()\<close>;
  otherwise Resume is rendered when paused and Pause when not, together with End Job;
  Clear All is disabled when \<^verbatim>\<open>isJobRunning\<close>. A click on a button that is not rendered
  or is disabled does nothing.
\<close>

definition start_panel :: "ImportJob \<Rightarrow> bool" where
  "start_panel job = (status job = Idle \<or> status job = Stopped \<or> status job = Completed)"

definition click :: "string \<Rightarrow> ui_action \<Rightarrow> sys \<Rightarrow> sys" where
  "click a act st =
     (let job = getJob st a in
      case act of
        SetUserEmails text \<Rightarrow>
          updateJobSettings a (no_updates\<lparr> p_userEmails := Some text \<rparr>) st
      | SetSendInvites v \<Rightarrow>
          updateJobSettings a (no_updates\<lparr> p_sendInvites := Some v \<rparr>) st
      | SetDelayInSeconds v \<Rightarrow>
          updateJobSettings a (no_updates\<lparr> p_delayInSeconds := Some v \<rparr>) st
      | ClickStartImport \<Rightarrow>
          if start_panel job \<and> \<not> (isJobRunning job \<or> trim (userEmails job) = [])
          then handleStartImport (Some a) st else st
      | ClickPause \<Rightarrow>
          if \<not> start_panel job \<and> status job \<noteq> Paused then pauseImportJob a st else st
      | ClickResume \<Rightarrow>
          if \<not> start_panel job \<and> status job = Paused then resumeImportJob a st else st
      | ClickEndJob \<Rightarrow>
          if \<not> start_panel job then stopImportJob a st else st
      | ClickClearAll \<Rightarrow>
          if \<not> isJobRunning job then handleClearAll (Some a) st else st)"

section \<open>Events\<close>

text \<open>
  Everything that can happen: the operator acts on the page with some account active, an
  elapsed-time interval fires, or a suspended invocation of \<^verbatim>\<open>startImportJob\<close> is resumed
  by what it awaits. An event for a handle that is not live, or for an invocation that is
  not suspended at that \<^verbatim>\<open>await\<close>, cannot occur and changes nothing.
\<close>

datatype event =
    Click string ui_action
  | ElapsedTick nat
  | PollWake nat
  | CountdownTick nat
  | FetchDone nat fetch_outcome

definition resume_at ::
  "nat \<Rightarrow> suspension \<Rightarrow> (run_loop \<Rightarrow> sys \<Rightarrow> sys) \<Rightarrow> sys \<Rightarrow> sys" where
  "resume_at k s f st =
     (case loops st k of
        None \<Rightarrow> st
      | Some L \<Rightarrow> if l_at L = s then f L st else st)"

fun step :: "event \<Rightarrow> sys \<Rightarrow> sys" where
  "step (Click a act) st = click a act st"
| "step (ElapsedTick t) st = elapsed_tick t st"
| "step (PollWake k) st = resume_at k AwaitPoll (poll_wake k) st"
| "step (CountdownTick k) st = resume_at k AwaitCountdown (countdown_tick k) st"
| "step (FetchDone k out) st = resume_at k AwaitFetch (\<lambda>L. fetch_done k L out) st"

text \<open>A history of events, from the state in which the provider is mounted.\<close>

definition run :: "event list \<Rightarrow> sys \<Rightarrow> sys" where
  "run evs st = foldl (\<lambda>s e. step e s) st evs"

definition after :: "event list \<Rightarrow> sys" where
  "after evs = run evs initial_sys"

section \<open>Invariants of the controller\<close>

text \<open>The successes and the errors in a list of stored results.\<close>

definition countS :: "import_body list \<Rightarrow> nat" where
  "countS rs = length (filter (\<lambda>r. body_status r = Some Success) rs)"

definition countE :: "import_body list \<Rightarrow> nat" where
  "countE rs = length (filter (\<lambda>r. body_status r = Some Error) rs)"

text \<open>
  What every job value in the store satisfies, whatever the endpoint answered: each
  counter is the number of stored results with that status, and the progress is a
  percentage, 100 when completed.
\<close>

definition good :: "ImportJob \<Rightarrow> bool" where
  "good j =
     (successCount j = countS (results j) \<and> failCount j = countE (results j)
      \<and> 0 \<le> progress j \<and> progress j \<le> 100
      \<and> (status j = Completed \<longrightarrow> progress j = 100))"

text \<open>
  The stored result is a result object, with a status. In a state with this property
  the results of every account with a non-empty id are such, in the store, in the log of
  written values and in the lists of the invocations.
\<close>

definition has_status :: "import_body \<Rightarrow> bool" where
  "has_status b = (body_status b \<noteq> None)"

definition statused :: "sys \<Rightarrow> bool" where
  "statused st =
     ((\<forall>a j. importJobs st a = Some j \<and> a \<noteq> [] \<longrightarrow> list_all has_status (results j))
      \<and> (\<forall>p \<in> set (published st). fst p \<noteq> [] \<longrightarrow> list_all has_status (results (snd p)))
      \<and> (\<forall>k L. loops st k = Some L \<and> l_accountId L \<noteq> [] \<longrightarrow>
            list_all has_status (l_newResults L)))"

text \<open>A job and the suspended invocation that is working on it.\<close>

definition tracks :: "ImportJob \<Rightarrow> run_loop \<Rightarrow> bool" where
  "tracks j L =
     (isJobRunning j \<and> results j = l_newResults L
      \<and> successCount j = countS (l_newResults L) \<and> failCount j = countE (l_newResults L)
      \<and> length (l_newResults L) = l_i L \<and> l_i L < length (l_users L)
      \<and> progress j = real (l_i L) / real (length (l_users L)) * 100)"

text \<open>A completed job and the invocation that completed it.\<close>

definition finished :: "ImportJob \<Rightarrow> run_loop \<Rightarrow> bool" where
  "finished j L =
     (results j = l_newResults L \<and> length (l_newResults L) = length (l_users L))"

text \<open>Invocation \<open>k\<close> is the most recent one for account \<open>a\<close>.\<close>

definition latest :: "(nat \<rightharpoonup> run_loop) \<Rightarrow> nat \<Rightarrow> string \<Rightarrow> bool" where
  "latest ls k a = (\<forall>k' L'. ls k' = Some L' \<and> l_accountId L' = a \<longrightarrow> k' \<le> k)"

text \<open>
  The records of an invocation are the parsed and filtered input text of the job as it
  was when the invocation started.
\<close>

definition from_input :: "run_loop \<Rightarrow> bool" where
  "from_input L = (l_users L = parseUserData (userEmails (l_settings L)))"

definition loops_ok :: "(nat \<rightharpoonup> run_loop) \<Rightarrow> nat \<Rightarrow> bool" where
  "loops_ok ls n = (\<forall>k L. ls k = Some L \<longrightarrow> k < n \<and> from_input L)"

definition active_ok ::
  "(string \<rightharpoonup> ImportJob) \<Rightarrow> (string \<rightharpoonup> JobRefs) \<Rightarrow> (nat \<rightharpoonup> run_loop) \<Rightarrow> bool" where
  "active_ok m refs ls =
     (\<forall>k L. ls k = Some L \<and> l_at L \<noteq> Returned \<longrightarrow>
        refs (l_accountId L) \<noteq> None \<and> latest ls k (l_accountId L)
        \<and> (\<exists>j. m (l_accountId L) = Some j \<and> tracks j L))"

definition jobs_ok :: "(string \<rightharpoonup> ImportJob) \<Rightarrow> (nat \<rightharpoonup> run_loop) \<Rightarrow> bool" where
  "jobs_ok m ls =
     (\<forall>a j. m a = Some j \<longrightarrow>
        good j
        \<and> (isJobRunning j \<longrightarrow>
             (\<exists>k L. ls k = Some L \<and> l_at L \<noteq> Returned \<and> l_accountId L = a))
        \<and> (status j = Completed \<longrightarrow>
             (\<exists>k L. ls k = Some L \<and> l_accountId L = a \<and> l_at L = Returned
                    \<and> finished j L \<and> latest ls k a)))"

definition pub_ok :: "(string \<times> ImportJob) list \<Rightarrow> bool" where
  "pub_ok pub = (\<forall>p \<in> set pub. good (snd p))"

definition timers_ok :: "(nat \<rightharpoonup> string) \<Rightarrow> (string \<rightharpoonup> ImportJob) \<Rightarrow> bool" where
  "timers_ok ivs m = (\<forall>t a. ivs t = Some a \<longrightarrow> m a \<noteq> None)"

definition Inv' ::
  "(string \<rightharpoonup> ImportJob) \<Rightarrow> (string \<rightharpoonup> JobRefs) \<Rightarrow> (nat \<rightharpoonup> run_loop) \<Rightarrow> nat
    \<Rightarrow> (nat \<rightharpoonup> string) \<Rightarrow> (string \<times> ImportJob) list \<Rightarrow> bool \<Rightarrow> bool" where
  "Inv' m refs ls n ivs pub cr =
     (\<not> cr \<and> loops_ok ls n \<and> active_ok m refs ls \<and> jobs_ok m ls \<and> pub_ok pub
      \<and> timers_ok ivs m)"

definition Inv :: "sys \<Rightarrow> bool" where
  "Inv st =
     Inv' (importJobs st) (jobRefs st) (loops st) (nextLoop st) (intervals st)
       (published st) (crashed st)"

text \<open>
  Updates that leave the fields of the run alone, or that flip a running job between
  running and paused.
\<close>

definition harmless :: "PartialImportJob \<Rightarrow> ImportJob \<Rightarrow> bool" where
  "harmless u j =
     (p_results u = None \<and> p_progress u = None \<and> p_successCount u = None
      \<and> p_failCount u = None
      \<and> (case p_status u of
            None \<Rightarrow> True
          | Some s \<Rightarrow> isJobRunning j \<and> (s = Running \<or> s = Paused)))"

section \<open>Notions used in the statements\<close>

text \<open>
  Where the loop head leaves an invocation with locals \<open>L\<close> when the refs of its account
  are \<open>r\<close>: returned when the records are exhausted or a stop is requested, in the pause
  loop when paused, in the countdown before a record that is not the first when the
  captured delay is positive, and awaiting its request otherwise.
\<close>

definition next_suspension :: "JobRefs \<Rightarrow> run_loop \<Rightarrow> suspension" where
  "next_suspension r L =
     (if \<not> l_i L < length (l_users L) \<or> ref_isStopped r then Returned
      else if ref_isPaused r then AwaitPoll
      else if 0 < l_i L \<and> 0 < delayInSeconds (l_settings L) then AwaitCountdown
      else AwaitFetch)"

text \<open>What an observer of account \<open>a\<close> sees of the countdown and the pending email in
  the job values written between two states.\<close>

definition seen :: "string \<Rightarrow> sys \<Rightarrow> sys \<Rightarrow> (int \<times> string option) list" where
  "seen a st0 st =
     map (\<lambda>p. (countdown (snd p), nextUserEmail (snd p)))
       (filter (\<lambda>p. fst p = a) (drop (length (published st0)) (published st)))"

text \<open>The values \<open>c - 1, ..., 0\<close> with the pending email \<open>e\<close>, and then the cleared pair.\<close>

definition remaining :: "int \<Rightarrow> string option \<Rightarrow> (int \<times> string option) list" where
  "remaining c e = map (\<lambda>x. (x, e)) (rev (map int [0..<nat c])) @ [(0, None)]"

text \<open>Event \<open>e\<close> resumes invocation \<open>k\<close>, which is suspended at \<open>s\<close>.\<close>

definition resumes :: "event \<Rightarrow> nat \<Rightarrow> suspension \<Rightarrow> bool" where
  "resumes e k s =
     (case e of
        PollWake k' \<Rightarrow> k' = k \<and> s = AwaitPoll
      | CountdownTick k' \<Rightarrow> k' = k \<and> s = AwaitCountdown
      | FetchDone k' out \<Rightarrow> k' = k \<and> s = AwaitFetch
      | _ \<Rightarrow> False)"

text \<open>Invocation \<open>k\<close>, which had locals \<open>L\<close> when a stop was pending for its account, is
  winding down: it is still the invocation of the same run, and either it is suspended
  with the results it had and the stop flag still set, or it has returned with at most one
  result more, and no more results than records.\<close>

definition winding_down :: "sys \<Rightarrow> nat \<Rightarrow> run_loop \<Rightarrow> bool" where
  "winding_down st k L =
     (case loops st k of
        None \<Rightarrow> False
      | Some L' \<Rightarrow>
          l_accountId L' = l_accountId L \<and> l_users L' = l_users L
          \<and> (if l_at L' = Returned
             then length (l_newResults L') \<le> length (l_newResults L) + 1
                  \<and> length (l_newResults L') \<le> length (l_users L)
             else l_newResults L' = l_newResults L
                  \<and> (case jobRefs st (l_accountId L) of
                       None \<Rightarrow> False
                     | Some r \<Rightarrow> ref_isStopped r)))"

text \<open>A settings update that touches the configuration fields only.\<close>

definition config_only :: "PartialImportJob \<Rightarrow> bool" where
  "config_only u =
     (p_status u = None \<and> p_results u = None \<and> p_progress u = None
      \<and> p_timeElapsed u = None \<and> p_successCount u = None \<and> p_failCount u = None
      \<and> p_isPausedRef u = None \<and> p_isStoppedRef u = None \<and> p_timerRef u = None
      \<and> p_showStats u = None \<and> p_countdown u = None \<and> p_nextUserEmail u = None)"

text \<open>The fields of a job other than the three configuration fields.\<close>

definition run_fields ::
  "ImportJob \<Rightarrow>
     JobStatus \<times> import_body list \<times> real \<times> nat \<times> nat \<times> nat \<times> bool \<times> bool
       \<times> nat option \<times> bool \<times> int \<times> string option" where
  "run_fields j =
     (status j, results j, progress j, timeElapsed j, successCount j, failCount j,
      isPausedRef j, isStoppedRef j, timerRef j, showStats j, countdown j, nextUserEmail j)"

text \<open>Two states that differ at most in the stored configuration of account \<open>a\<close> and in the
  log of written job values: the same invocations with the same locals, the same flags and
  timers, the same requests sent and toasts shown, the same jobs for the other accounts, and
  for \<open>a\<close> the same job but for its configuration.\<close>

definition same_run :: "string \<Rightarrow> sys \<Rightarrow> sys \<Rightarrow> bool" where
  "same_run a s t =
     (loops s = loops t \<and> nextLoop s = nextLoop t \<and> jobRefs s = jobRefs t
      \<and> intervals s = intervals t \<and> nextTimer s = nextTimer t
      \<and> requests s = requests t \<and> toasts s = toasts t \<and> crashed s = crashed t
      \<and> (\<forall>b. b \<noteq> a \<longrightarrow> importJobs s b = importJobs t b)
      \<and> map_option run_fields (importJobs s a) = map_option run_fields (importJobs t a))"

text \<open>\<^verbatim>\<open>currentJobSettings\<close> of invocation \<open>k\<close>.\<close>

definition captured :: "sys \<Rightarrow> nat \<Rightarrow> ImportJob option" where
  "captured st k = map_option l_settings (loops st k)"

section \<open>Concrete histories\<close>

text \<open>
  The input of the specification's example, two valid lines, and an input without a
  valid line.
\<close>

definition two_lines :: string where
  "two_lines = ''a@x.com,A,One'' @ [CHR 0x0A] @ ''b@x.com,B,Two''"

definition no_valid_line :: string where
  "no_valid_line = ''not-an-email''"

text \<open>
  The stored account list, an identity provider that accepts every call, and the
  endpoint answering with them: the invitation went through.
\<close>

definition one_account :: "account list" where
  "one_account = [\<lparr> acc_id = ''acct'', acc_secretKey = ''sk_test'' \<rparr>]"

definition accepting :: "clerk_request \<Rightarrow> clerk_reply" where
  "accepting q =
     Replied True \<lparr> d_id = Some ''inv_1'', d_user_id = None, d_long_message = None \<rparr>"

definition invited :: fetch_outcome where
  "invited = Served one_account accepting"

text \<open>
  The operator pastes the two lines, sets the delay, and starts the import; the first
  request is in flight.
\<close>

definition started :: "int \<Rightarrow> sys" where
  "started d =
     after [Click ''acct'' (SetUserEmails two_lines), Click ''acct'' (SetDelayInSeconds d),
            Click ''acct'' ClickStartImport]"

text \<open>Without delay: the first record is done and the second request is in flight.\<close>

definition one_done :: sys where
  "one_done = run [FetchDone 0 invited] (started 0)"

text \<open>... and then both records are done, the second one failing in transport.\<close>

definition both_done :: sys where
  "both_done = run [FetchDone 0 Threw] one_done"

text \<open>A direct call of \<^verbatim>\<open>startImportJob\<close> while that run is in progress.\<close>

definition restarted :: sys where
  "restarted = startImportJob ''acct'' (parseUserData ''c@x.com'') one_done"

text \<open>The operator pastes a text without any valid line.\<close>

definition pasted_invalid :: sys where
  "pasted_invalid = after [Click ''acct'' (SetUserEmails no_valid_line)]"

text \<open>
  With a delay of two seconds: the first record is done and the countdown before the
  second has begun.
\<close>

definition counting_down :: sys where
  "counting_down = run [FetchDone 0 invited] (started 2)"

text \<open>An identity provider that rejects every call.\<close>

definition rejecting :: "clerk_request \<Rightarrow> clerk_reply" where
  "rejecting q =
     Replied False \<lparr> d_id = None, d_user_id = None,
                     d_long_message = Some ''That email address is taken.'' \<rparr>"

text \<open>A stop is requested while the countdown before the second record runs.\<close>

definition stop_in_countdown :: sys where
  "stop_in_countdown = run [Click ''acct'' ClickEndJob] counting_down"


text \<open>A stop is requested while the first request is in flight.\<close>

definition stop_in_flight :: sys where
  "stop_in_flight = run [Click ''acct'' ClickEndJob] (started 0)"

text \<open>
  The operator switches from invitations to direct creation and raises the delay to five
  seconds; and the events of a run of the two records with a pause in its countdown.
\<close>

definition new_settings :: PartialImportJob where
  "new_settings = no_updates\<lparr> p_sendInvites := Some False, p_delayInSeconds := Some 5 \<rparr>"

definition rest_of_run :: "event list" where
  "rest_of_run =
     [FetchDone 0 invited, CountdownTick 0, Click ''acct'' ClickPause,
      CountdownTick 0, ElapsedTick 0, FetchDone 0 invited]"

section \<open>The invariant holds in every reachable state\<close>

lemma tracks_running: "tracks j L \<Longrightarrow> isJobRunning j"
  by (simp add: tracks_def)

lemma running_not_completed: "isJobRunning j \<Longrightarrow> status j \<noteq> Completed"
  by (auto simp: isJobRunning_def)

lemma good_initial: "good initialJobState"
  by (simp add: good_def initialJobState_def countS_def countE_def)

lemma not_running_initial: "\<not> isJobRunning initialJobState"
  by (simp add: isJobRunning_def initialJobState_def)

lemma initial_not_completed: "status initialJobState \<noteq> Completed"
  by (simp add: initialJobState_def)

lemma from_input_upd [simp]:
  "from_input (L\<lparr> l_at := s \<rparr>) = from_input L"
  "from_input (L\<lparr> l_i := i \<rparr>) = from_input L"
  "from_input (L\<lparr> l_newResults := rs \<rparr>) = from_input L"
  by (simp_all add: from_input_def)

lemma pub_ok_simps [simp]:
  "pub_ok []" "pub_ok (xs @ ys) = (pub_ok xs \<and> pub_ok ys)" "pub_ok ((a, j) # xs) = (good j \<and> pub_ok xs)"
  by (auto simp: pub_ok_def)

lemma Inv'_parts:
  assumes "Inv' m refs ls n ivs pub cr"
  shows "\<not> cr"
    and "\<And>k L. ls k = Some L \<Longrightarrow> k < n"
    and "\<And>k L. ls k = Some L \<Longrightarrow> l_at L \<noteq> Returned \<Longrightarrow>
           refs (l_accountId L) \<noteq> None \<and> (\<exists>j. m (l_accountId L) = Some j \<and> tracks j L)"
    and "\<And>k k' L L'. ls k = Some L \<Longrightarrow> ls k' = Some L' \<Longrightarrow> l_at L \<noteq> Returned \<Longrightarrow>
           l_at L' \<noteq> Returned \<Longrightarrow> l_accountId L = l_accountId L' \<Longrightarrow> k = k'"
    and "\<And>a j. m a = Some j \<Longrightarrow> good j"
    and "\<And>a j. m a = Some j \<Longrightarrow> isJobRunning j \<Longrightarrow>
           \<exists>k L. ls k = Some L \<and> l_at L \<noteq> Returned \<and> l_accountId L = a"
    and "\<And>a j. m a = Some j \<Longrightarrow> status j = Completed \<Longrightarrow>
           \<exists>k L. ls k = Some L \<and> l_accountId L = a \<and> l_at L = Returned \<and> finished j L
             \<and> latest ls k a"
    and "pub_ok pub"
    and "\<And>t a. ivs t = Some a \<Longrightarrow> m a \<noteq> None"
    and "\<And>k L. ls k = Some L \<Longrightarrow> from_input L"
    and "\<And>k L. ls k = Some L \<Longrightarrow> l_at L \<noteq> Returned \<Longrightarrow> latest ls k (l_accountId L)"
proof -
  have a: "active_ok m refs ls" and l: "loops_ok ls n" and j: "jobs_ok m ls"
    and t: "timers_ok ivs m"
    using assms by (simp_all add: Inv'_def)
  show "\<not> cr" "pub_ok pub" using assms by (simp_all add: Inv'_def)
  show "\<And>k L. ls k = Some L \<Longrightarrow> k < n" "\<And>k L. ls k = Some L \<Longrightarrow> from_input L"
    using l by (auto simp: loops_ok_def)
  show "\<And>k L. ls k = Some L \<Longrightarrow> l_at L \<noteq> Returned \<Longrightarrow>
           refs (l_accountId L) \<noteq> None \<and> (\<exists>j. m (l_accountId L) = Some j \<and> tracks j L)"
    using a unfolding active_ok_def by blast
  show lat: "\<And>k L. ls k = Some L \<Longrightarrow> l_at L \<noteq> Returned \<Longrightarrow> latest ls k (l_accountId L)"
    using a unfolding active_ok_def by blast
  show "\<And>k k' L L'. ls k = Some L \<Longrightarrow> ls k' = Some L' \<Longrightarrow> l_at L \<noteq> Returned \<Longrightarrow>
           l_at L' \<noteq> Returned \<Longrightarrow> l_accountId L = l_accountId L' \<Longrightarrow> k = k'"
  proof -
    fix k k' L L'
    assume h: "ls k = Some L" "ls k' = Some L'" "l_at L \<noteq> Returned" "l_at L' \<noteq> Returned"
      "l_accountId L = l_accountId L'"
    have "k' \<le> k" using lat[OF h(1,3)] h(2,5) by (auto simp: latest_def)
    moreover have "k \<le> k'" using lat[OF h(2,4)] h(1,5) by (auto simp: latest_def)
    ultimately show "k = k'" by simp
  qed
  show "\<And>a j. m a = Some j \<Longrightarrow> good j"
    "\<And>a j. m a = Some j \<Longrightarrow> isJobRunning j \<Longrightarrow>
           \<exists>k L. ls k = Some L \<and> l_at L \<noteq> Returned \<and> l_accountId L = a"
    "\<And>a j. m a = Some j \<Longrightarrow> status j = Completed \<Longrightarrow>
           \<exists>k L. ls k = Some L \<and> l_accountId L = a \<and> l_at L = Returned \<and> finished j L
             \<and> latest ls k a"
    using j unfolding jobs_ok_def by blast+
  show "\<And>t a. ivs t = Some a \<Longrightarrow> m a \<noteq> None" using t unfolding timers_ok_def by blast
qed

lemma latest_upd:
  assumes "ls k = Some L" "l_accountId L' = l_accountId L"
  shows "latest (ls(k \<mapsto> L')) k2 b = latest ls k2 b"
proof
  assume h: "latest (ls(k \<mapsto> L')) k2 b"
  show "latest ls k2 b"
    unfolding latest_def
  proof (intro allI impI)
    fix k' L2 assume x: "ls k' = Some L2 \<and> l_accountId L2 = b"
    show "k' \<le> k2"
    proof (cases "k' = k")
      case True
      then have "(ls(k \<mapsto> L')) k' = Some L' \<and> l_accountId L' = b" using x assms by simp
      then show ?thesis using h unfolding latest_def by blast
    next
      case False
      then have "(ls(k \<mapsto> L')) k' = Some L2 \<and> l_accountId L2 = b" using x by simp
      then show ?thesis using h unfolding latest_def by blast
    qed
  qed
next
  assume h: "latest ls k2 b"
  show "latest (ls(k \<mapsto> L')) k2 b"
    unfolding latest_def
  proof (intro allI impI)
    fix k' L2 assume x: "(ls(k \<mapsto> L')) k' = Some L2 \<and> l_accountId L2 = b"
    show "k' \<le> k2"
    proof (cases "k' = k")
      case True
      then have "ls k' = Some L \<and> l_accountId L = b" using x assms by auto
      then show ?thesis using h unfolding latest_def by blast
    next
      case False
      then have "ls k' = Some L2 \<and> l_accountId L2 = b" using x by simp
      then show ?thesis using h unfolding latest_def by blast
    qed
  qed
qed

lemma latest_new:
  assumes "ls n = None" "l_accountId L' \<noteq> b"
  shows "latest (ls(n \<mapsto> L')) k2 b = latest ls k2 b"
proof
  assume h: "latest (ls(n \<mapsto> L')) k2 b"
  show "latest ls k2 b"
    unfolding latest_def
  proof (intro allI impI)
    fix k' L2 assume x: "ls k' = Some L2 \<and> l_accountId L2 = b"
    then have "k' \<noteq> n" using assms(1) by auto
    then have "(ls(n \<mapsto> L')) k' = Some L2 \<and> l_accountId L2 = b" using x by simp
    then show "k' \<le> k2" using h unfolding latest_def by blast
  qed
next
  assume h: "latest ls k2 b"
  show "latest (ls(n \<mapsto> L')) k2 b"
    unfolding latest_def
  proof (intro allI impI)
    fix k' L2 assume x: "(ls(n \<mapsto> L')) k' = Some L2 \<and> l_accountId L2 = b"
    then have "k' \<noteq> n" using assms(2) by auto
    then have "ls k' = Some L2 \<and> l_accountId L2 = b" using x by simp
    then show "k' \<le> k2" using h unfolding latest_def by blast
  qed
qed

lemma Inv'_loop:
  assumes I: "Inv' m refs ls n ivs pub False"
    and k: "ls k = Some L" "l_at L \<noteq> Returned"
    and acc: "l_accountId L = a" "l_accountId L' = a"
    and inp: "from_input L'"
    and refs: "\<forall>b. refs b \<noteq> None \<longrightarrow> refs' b \<noteq> None"
    and ivs: "\<forall>t b. ivs' t = Some b \<longrightarrow> ivs t = Some b \<or> b = a"
    and ps: "pub_ok ps"
    and j': "good j'"
    and act: "l_at L' \<noteq> Returned \<longrightarrow> tracks j' L'"
    and ret: "l_at L' = Returned \<longrightarrow> \<not> isJobRunning j' \<and> (status j' = Completed \<longrightarrow> finished j' L')"
  shows "Inv' (m(a \<mapsto> j')) refs' (ls(k \<mapsto> L')) n ivs' (pub @ ps) False"
proof -
  note P = Inv'_parts[OF I]
  have lu: "\<And>k2 b. latest (ls(k \<mapsto> L')) k2 b = latest ls k2 b"
    using latest_upd[of ls k L L'] k(1) acc by simp
  have other: "\<And>k2 L2. ls k2 = Some L2 \<Longrightarrow> l_at L2 \<noteq> Returned \<Longrightarrow> k2 \<noteq> k \<Longrightarrow> l_accountId L2 \<noteq> a"
    using P(4) k acc by blast
  have 1: "loops_ok (ls(k \<mapsto> L')) n"
    using P(2) P(10) k inp by (auto simp: loops_ok_def)
  have 2: "active_ok (m(a \<mapsto> j')) refs' (ls(k \<mapsto> L'))"
    unfolding active_ok_def
  proof (intro allI impI)
    fix k2 L2 assume h: "(ls(k \<mapsto> L')) k2 = Some L2 \<and> l_at L2 \<noteq> Returned"
    show "refs' (l_accountId L2) \<noteq> None \<and> latest (ls(k \<mapsto> L')) k2 (l_accountId L2)
        \<and> (\<exists>j. (m(a \<mapsto> j')) (l_accountId L2) = Some j \<and> tracks j L2)"
    proof (cases "k2 = k")
      case True
      then have "L2 = L'" using h by simp
      moreover have "refs' a \<noteq> None" using P(3)[OF k] acc refs by blast
      moreover have "latest ls k a" using P(11)[OF k] acc by simp
      ultimately show ?thesis using h act acc lu True by simp
    next
      case False
      then have l: "ls k2 = Some L2" using h by simp
      then have "l_accountId L2 \<noteq> a" using other h False by blast
      then show ?thesis using P(3)[OF l] P(11)[OF l] h refs lu by auto
    qed
  qed
  have 4: "jobs_ok (m(a \<mapsto> j')) (ls(k \<mapsto> L'))"
    unfolding jobs_ok_def
  proof (intro allI impI)
    fix b j assume h: "(m(a \<mapsto> j')) b = Some j"
    show "good j
         \<and> (isJobRunning j \<longrightarrow> (\<exists>k2 L2. (ls(k \<mapsto> L')) k2 = Some L2 \<and> l_at L2 \<noteq> Returned \<and> l_accountId L2 = b))
         \<and> (status j = Completed \<longrightarrow> (\<exists>k2 L2. (ls(k \<mapsto> L')) k2 = Some L2 \<and> l_accountId L2 = b
                \<and> l_at L2 = Returned \<and> finished j L2 \<and> latest (ls(k \<mapsto> L')) k2 b))"
    proof (cases "b = a")
      case True
      then have jj: "j = j'" using h by simp
      have r: "isJobRunning j' \<longrightarrow> l_at L' \<noteq> Returned" using ret by blast
      have c: "status j' = Completed \<longrightarrow> l_at L' = Returned \<and> finished j' L'"
        using act ret tracks_running running_not_completed by blast
      have "latest ls k a" using P(11)[OF k] acc by simp
      then show ?thesis using jj True j' r c acc lu by auto
    next
      case False
      then have mb: "m b = Some j" using h by simp
      have r: "isJobRunning j \<longrightarrow> (\<exists>k2 L2. (ls(k \<mapsto> L')) k2 = Some L2 \<and> l_at L2 \<noteq> Returned \<and> l_accountId L2 = b)"
      proof
        assume "isJobRunning j"
        then obtain k2 L2 where x: "ls k2 = Some L2" "l_at L2 \<noteq> Returned" "l_accountId L2 = b"
          using P(6)[OF mb] by blast
        then have "k2 \<noteq> k" using k acc False by auto
        then show "\<exists>k2 L2. (ls(k \<mapsto> L')) k2 = Some L2 \<and> l_at L2 \<noteq> Returned \<and> l_accountId L2 = b"
          using x by auto
      qed
      have c: "status j = Completed \<longrightarrow> (\<exists>k2 L2. (ls(k \<mapsto> L')) k2 = Some L2 \<and> l_accountId L2 = b
            \<and> l_at L2 = Returned \<and> finished j L2 \<and> latest (ls(k \<mapsto> L')) k2 b)"
      proof
        assume "status j = Completed"
        then obtain k2 L2 where x: "ls k2 = Some L2" "l_accountId L2 = b" "l_at L2 = Returned"
          "finished j L2" "latest ls k2 b" using P(7)[OF mb] by blast
        then have "k2 \<noteq> k" using k acc False by auto
        then show "\<exists>k2 L2. (ls(k \<mapsto> L')) k2 = Some L2 \<and> l_accountId L2 = b
            \<and> l_at L2 = Returned \<and> finished j L2 \<and> latest (ls(k \<mapsto> L')) k2 b"
          using x lu by auto
      qed
      show ?thesis using P(5)[OF mb] r c by blast
    qed
  qed
  have 5: "pub_ok (pub @ ps)" using P(8) ps by simp
  have 6: "timers_ok ivs' (m(a \<mapsto> j'))"
    unfolding timers_ok_def
  proof (intro allI impI)
    fix t2 b assume "ivs' t2 = Some b"
    then have "ivs t2 = Some b \<or> b = a" using ivs by blast
    then show "(m(a \<mapsto> j')) b \<noteq> None" using P(9) by (cases "b = a") auto
  qed
  show ?thesis unfolding Inv'_def using 1 2 4 5 6 by blast
qed

lemma Inv'_job:
  assumes I: "Inv' m refs ls n ivs pub False"
    and j: "j = or_else (m a) initialJobState"
    and j': "good j'"
    and same: "results j' = results j" "successCount j' = successCount j"
      "failCount j' = failCount j" "progress j' = progress j"
      "isJobRunning j' = isJobRunning j" "status j' = Completed \<longrightarrow> status j = Completed"
    and refs: "\<forall>b. refs b \<noteq> None \<longrightarrow> refs' b \<noteq> None"
    and ivs: "\<forall>t b. ivs' t = Some b \<longrightarrow> ivs t = Some b \<or> b = a"
    and ps: "pub_ok ps"
  shows "Inv' (m(a \<mapsto> j')) refs' ls n ivs' (pub @ ps) False"
proof -
  note P = Inv'_parts[OF I]
  have tr: "\<And>L. tracks j L \<Longrightarrow> tracks j' L"
    using same by (simp add: tracks_def)
  have fi: "\<And>L. finished j L \<Longrightarrow> finished j' L"
    using same by (simp add: finished_def)
  have mj: "isJobRunning j \<or> status j = Completed \<Longrightarrow> m a = Some j"
    using j by (cases "m a") (auto simp: or_else_def isJobRunning_def initialJobState_def)
  have 1: "loops_ok ls n" using P(2) P(10) by (auto simp: loops_ok_def)
  have 2: "active_ok (m(a \<mapsto> j')) refs' ls"
    unfolding active_ok_def
  proof (intro allI impI)
    fix k L assume h: "ls k = Some L \<and> l_at L \<noteq> Returned"
    then obtain j2 where x: "refs (l_accountId L) \<noteq> None" "m (l_accountId L) = Some j2" "tracks j2 L"
      using P(3) by blast
    have la: "latest ls k (l_accountId L)" using P(11) h by blast
    show "refs' (l_accountId L) \<noteq> None \<and> latest ls k (l_accountId L)
        \<and> (\<exists>j2. (m(a \<mapsto> j')) (l_accountId L) = Some j2 \<and> tracks j2 L)"
    proof (cases "l_accountId L = a")
      case True
      then have "j2 = j" using x j by (simp add: or_else_def)
      then show ?thesis using True x tr refs la by auto
    next
      case False
      then show ?thesis using x refs la by auto
    qed
  qed
  have 4: "jobs_ok (m(a \<mapsto> j')) ls"
    unfolding jobs_ok_def
  proof (intro allI impI)
    fix b j2 assume h: "(m(a \<mapsto> j')) b = Some j2"
    show "good j2
         \<and> (isJobRunning j2 \<longrightarrow> (\<exists>k L. ls k = Some L \<and> l_at L \<noteq> Returned \<and> l_accountId L = b))
         \<and> (status j2 = Completed \<longrightarrow> (\<exists>k L. ls k = Some L \<and> l_accountId L = b \<and> l_at L = Returned
              \<and> finished j2 L \<and> latest ls k b))"
    proof (cases "b = a")
      case True
      then have jj: "j2 = j'" using h by simp
      have r: "isJobRunning j' \<longrightarrow> (\<exists>k L. ls k = Some L \<and> l_at L \<noteq> Returned \<and> l_accountId L = a)"
        using same mj P(6) by metis
      have c: "status j' = Completed \<longrightarrow> (\<exists>k L. ls k = Some L \<and> l_accountId L = a \<and> l_at L = Returned
            \<and> finished j' L \<and> latest ls k a)"
        using same mj P(7) fi by metis
      show ?thesis using jj True j' r c by simp
    next
      case False
      then have "m b = Some j2" using h by simp
      then show ?thesis using P(5,6,7) by blast
    qed
  qed
  have 5: "pub_ok (pub @ ps)" using P(8) ps by simp
  have 6: "timers_ok ivs' (m(a \<mapsto> j'))"
    unfolding timers_ok_def
  proof (intro allI impI)
    fix t2 b assume "ivs' t2 = Some b"
    then have "ivs t2 = Some b \<or> b = a" using ivs by blast
    then show "(m(a \<mapsto> j')) b \<noteq> None" using P(9) by (cases "b = a") auto
  qed
  show ?thesis unfolding Inv'_def using 1 2 4 5 6 by blast
qed

lemma Inv'_refs:
  assumes I: "Inv' m refs ls n ivs pub False"
    and refs: "\<forall>b. refs b \<noteq> None \<longrightarrow> refs' b \<noteq> None"
    and ivs: "\<forall>t b. ivs' t = Some b \<longrightarrow> ivs t = Some b \<or> m b \<noteq> None"
  shows "Inv' m refs' ls n ivs' pub False"
proof -
  have a: "active_ok m refs ls" and l: "loops_ok ls n" and j: "jobs_ok m ls"
    and t: "timers_ok ivs m" and p: "pub_ok pub"
    using I by (simp_all add: Inv'_def)
  have a': "active_ok m refs' ls"
    unfolding active_ok_def
  proof (intro allI impI)
    fix k L assume h: "ls k = Some L \<and> l_at L \<noteq> Returned"
    then have "refs (l_accountId L) \<noteq> None \<and> latest ls k (l_accountId L)
        \<and> (\<exists>j. m (l_accountId L) = Some j \<and> tracks j L)"
      using a unfolding active_ok_def by blast
    then show "refs' (l_accountId L) \<noteq> None \<and> latest ls k (l_accountId L)
        \<and> (\<exists>j. m (l_accountId L) = Some j \<and> tracks j L)"
      using refs by blast
  qed
  have t': "timers_ok ivs' m"
    unfolding timers_ok_def
  proof (intro allI impI)
    fix t2 b assume "ivs' t2 = Some b"
    then have "ivs t2 = Some b \<or> m b \<noteq> None" using ivs by blast
    then show "m b \<noteq> None" using t unfolding timers_ok_def by blast
  qed
  show ?thesis unfolding Inv'_def using l a' j p t' by simp
qed

lemma Inv'_idle:
  assumes I: "Inv' m refs ls n ivs pub False"
    and old: "\<not> isJobRunning (or_else (m a) initialJobState)"
    and j': "good j'" "\<not> isJobRunning j'" "status j' \<noteq> Completed"
    and ps: "pub_ok ps"
  shows "Inv' (m(a \<mapsto> j')) refs ls n ivs (pub @ ps) False"
proof -
  note P = Inv'_parts[OF I]
  have none: "\<And>k L. ls k = Some L \<Longrightarrow> l_at L \<noteq> Returned \<Longrightarrow> l_accountId L \<noteq> a"
  proof
    fix k L assume h: "ls k = Some L" "l_at L \<noteq> Returned" "l_accountId L = a"
    then obtain j where "m a = Some j" "tracks j L" using P(3) by blast
    then show False using old tracks_running by (auto simp: or_else_def)
  qed
  have 1: "loops_ok ls n" using P(2) P(10) by (auto simp: loops_ok_def)
  have 2: "active_ok (m(a \<mapsto> j')) refs ls"
    unfolding active_ok_def
  proof (intro allI impI)
    fix k L assume h: "ls k = Some L \<and> l_at L \<noteq> Returned"
    then have ne: "l_accountId L \<noteq> a" using none by blast
    have "refs (l_accountId L) \<noteq> None \<and> (\<exists>j. m (l_accountId L) = Some j \<and> tracks j L)"
      using P(3) h by blast
    moreover have "latest ls k (l_accountId L)" using P(11) h by blast
    ultimately show "refs (l_accountId L) \<noteq> None \<and> latest ls k (l_accountId L)
        \<and> (\<exists>j2. (m(a \<mapsto> j')) (l_accountId L) = Some j2 \<and> tracks j2 L)"
      using ne by simp
  qed
  have 4: "jobs_ok (m(a \<mapsto> j')) ls"
    unfolding jobs_ok_def
  proof (intro allI impI)
    fix b j2 assume h: "(m(a \<mapsto> j')) b = Some j2"
    show "good j2
         \<and> (isJobRunning j2 \<longrightarrow> (\<exists>k L. ls k = Some L \<and> l_at L \<noteq> Returned \<and> l_accountId L = b))
         \<and> (status j2 = Completed \<longrightarrow> (\<exists>k L. ls k = Some L \<and> l_accountId L = b \<and> l_at L = Returned
              \<and> finished j2 L \<and> latest ls k b))"
    proof (cases "b = a")
      case True
      then show ?thesis using h j' by auto
    next
      case False
      then have "m b = Some j2" using h by simp
      then show ?thesis using P(5,6,7) by blast
    qed
  qed
  have 5: "pub_ok (pub @ ps)" using P(8) ps by simp
  have 6: "timers_ok ivs (m(a \<mapsto> j'))"
    unfolding timers_ok_def
  proof (intro allI impI)
    fix t2 b assume "ivs t2 = Some b"
    then show "(m(a \<mapsto> j')) b \<noteq> None" using P(9) by (cases "b = a") auto
  qed
  show ?thesis unfolding Inv'_def using 1 2 4 5 6 by blast
qed

lemma Inv'_start:
  assumes I: "Inv' m refs ls n ivs pub False"
    and old: "\<not> isJobRunning (or_else (m a) initialJobState)"
    and L': "l_accountId L' = a" "l_at L' \<noteq> Returned" "tracks j' L'" "from_input L'"
    and j': "good j'"
    and refs: "refs' a \<noteq> None" "\<forall>b. refs b \<noteq> None \<longrightarrow> refs' b \<noteq> None"
    and ivs: "\<forall>t b. ivs' t = Some b \<longrightarrow> ivs t = Some b \<or> b = a"
    and ps: "pub_ok ps"
  shows "Inv' (m(a \<mapsto> j')) refs' (ls(n \<mapsto> L')) (Suc n) ivs' (pub @ ps) False"
proof -
  note P = Inv'_parts[OF I]
  have none: "\<And>k L. ls k = Some L \<Longrightarrow> l_at L \<noteq> Returned \<Longrightarrow> l_accountId L \<noteq> a"
  proof
    fix k L assume h: "ls k = Some L" "l_at L \<noteq> Returned" "l_accountId L = a"
    then obtain j where "m a = Some j" "tracks j L" using P(3) by blast
    then show False using old tracks_running by (auto simp: or_else_def)
  qed
  have fr: "ls n = None" using P(2) by (cases "ls n") auto
  have ln: "\<And>k2 b. b \<noteq> a \<Longrightarrow> latest (ls(n \<mapsto> L')) k2 b = latest ls k2 b"
  proof -
    fix k2 b assume "b \<noteq> a"
    then have "l_accountId L' \<noteq> b" using L'(1) by auto
    with fr show "latest (ls(n \<mapsto> L')) k2 b = latest ls k2 b" by (rule latest_new)
  qed
  have lnew: "latest (ls(n \<mapsto> L')) n a"
    unfolding latest_def
  proof (intro allI impI)
    fix k' L2 assume x: "(ls(n \<mapsto> L')) k' = Some L2 \<and> l_accountId L2 = a"
    show "k' \<le> n"
    proof (cases "k' = n")
      case True
      then show ?thesis by simp
    next
      case False
      then have "ls k' = Some L2" using x by simp
      then have "k' < n" by (rule P(2))
      then show ?thesis by simp
    qed
  qed
  have 1: "loops_ok (ls(n \<mapsto> L')) (Suc n)"
    using P(2) P(10) L'(4) by (auto simp: loops_ok_def less_Suc_eq)
  have 2: "active_ok (m(a \<mapsto> j')) refs' (ls(n \<mapsto> L'))"
    unfolding active_ok_def
  proof (intro allI impI)
    fix k L assume h: "(ls(n \<mapsto> L')) k = Some L \<and> l_at L \<noteq> Returned"
    show "refs' (l_accountId L) \<noteq> None \<and> latest (ls(n \<mapsto> L')) k (l_accountId L)
        \<and> (\<exists>j2. (m(a \<mapsto> j')) (l_accountId L) = Some j2 \<and> tracks j2 L)"
    proof (cases "k = n")
      case True
      then show ?thesis using h L' refs lnew by auto
    next
      case False
      then have l: "ls k = Some L" using h by simp
      then have "l_accountId L \<noteq> a" using none h by blast
      then show ?thesis using P(3)[OF l] P(11)[OF l] h refs ln by auto
    qed
  qed
  have 4: "jobs_ok (m(a \<mapsto> j')) (ls(n \<mapsto> L'))"
    unfolding jobs_ok_def
  proof (intro allI impI)
    fix b j2 assume h: "(m(a \<mapsto> j')) b = Some j2"
    show "good j2
         \<and> (isJobRunning j2 \<longrightarrow> (\<exists>k L. (ls(n \<mapsto> L')) k = Some L \<and> l_at L \<noteq> Returned \<and> l_accountId L = b))
         \<and> (status j2 = Completed \<longrightarrow> (\<exists>k L. (ls(n \<mapsto> L')) k = Some L \<and> l_accountId L = b
              \<and> l_at L = Returned \<and> finished j2 L \<and> latest (ls(n \<mapsto> L')) k b))"
    proof (cases "b = a")
      case True
      then have jj: "j2 = j'" using h by simp
      have "status j' \<noteq> Completed" using L' tracks_running running_not_completed by blast
      then show ?thesis using jj True j' L' by auto
    next
      case False
      then have mb: "m b = Some j2" using h by simp
      have r: "isJobRunning j2 \<longrightarrow> (\<exists>k L. (ls(n \<mapsto> L')) k = Some L \<and> l_at L \<noteq> Returned \<and> l_accountId L = b)"
      proof
        assume "isJobRunning j2"
        then obtain k2 L2 where x: "ls k2 = Some L2" "l_at L2 \<noteq> Returned" "l_accountId L2 = b"
          using P(6)[OF mb] by blast
        then have "k2 \<noteq> n" using fr by auto
        then show "\<exists>k L. (ls(n \<mapsto> L')) k = Some L \<and> l_at L \<noteq> Returned \<and> l_accountId L = b"
          using x by auto
      qed
      have c: "status j2 = Completed \<longrightarrow> (\<exists>k L. (ls(n \<mapsto> L')) k = Some L \<and> l_accountId L = b
            \<and> l_at L = Returned \<and> finished j2 L \<and> latest (ls(n \<mapsto> L')) k b)"
      proof
        assume "status j2 = Completed"
        then obtain k2 L2 where x: "ls k2 = Some L2" "l_accountId L2 = b" "l_at L2 = Returned"
          "finished j2 L2" "latest ls k2 b" using P(7)[OF mb] by blast
        then have "k2 \<noteq> n" using fr by auto
        then show "\<exists>k L. (ls(n \<mapsto> L')) k = Some L \<and> l_accountId L = b
            \<and> l_at L = Returned \<and> finished j2 L \<and> latest (ls(n \<mapsto> L')) k b"
          using x ln[OF False] by auto
      qed
      show ?thesis using P(5)[OF mb] r c by blast
    qed
  qed
  have 5: "pub_ok (pub @ ps)" using P(8) ps by simp
  have 6: "timers_ok ivs' (m(a \<mapsto> j'))"
    unfolding timers_ok_def
  proof (intro allI impI)
    fix t2 b assume "ivs' t2 = Some b"
    then have "ivs t2 = Some b \<or> b = a" using ivs by blast
    then show "(m(a \<mapsto> j')) b \<noteq> None" using P(9) by (cases "b = a") auto
  qed
  show ?thesis unfolding Inv'_def using 1 2 4 5 6 by blast
qed

lemma spread_sel [simp]:
  "status (spread j u) = or_else (p_status u) (status j)"
  "results (spread j u) = or_else (p_results u) (results j)"
  "progress (spread j u) = or_else (p_progress u) (progress j)"
  "timeElapsed (spread j u) = or_else (p_timeElapsed u) (timeElapsed j)"
  "successCount (spread j u) = or_else (p_successCount u) (successCount j)"
  "failCount (spread j u) = or_else (p_failCount u) (failCount j)"
  "showStats (spread j u) = or_else (p_showStats u) (showStats j)"
  "userEmails (spread j u) = or_else (p_userEmails u) (userEmails j)"
  "sendInvites (spread j u) = or_else (p_sendInvites u) (sendInvites j)"
  "delayInSeconds (spread j u) = or_else (p_delayInSeconds u) (delayInSeconds j)"
  "countdown (spread j u) = or_else (p_countdown u) (countdown j)"
  "nextUserEmail (spread j u) = or_else (p_nextUserEmail u) (nextUserEmail j)"
  by (simp_all add: spread_def)

lemma no_updates_sel [simp]:
  "p_status no_updates = None" "p_results no_updates = None" "p_progress no_updates = None"
  "p_timeElapsed no_updates = None" "p_successCount no_updates = None"
  "p_failCount no_updates = None" "p_showStats no_updates = None"
  "p_userEmails no_updates = None" "p_sendInvites no_updates = None"
  "p_delayInSeconds no_updates = None" "p_countdown no_updates = None"
  "p_nextUserEmail no_updates = None"
  by (simp_all add: no_updates_def)

lemma or_else_simps [simp]: "or_else None v = v" "or_else (Some w) v = w"
  by (simp_all add: or_else_def)

lemma Inv_good_getJob: "Inv st \<Longrightarrow> good (getJob st a)"
  by (cases "importJobs st a")
     (auto simp: Inv_def getJob_def good_initial dest: Inv'_parts(5))

lemma Inv_updateJobState:
  assumes "Inv st" "harmless u (getJob st a)"
  shows "Inv (updateJobState a u st)"
proof -
  let ?j = "getJob st a"
  have g: "good ?j" using assms(1) by (rule Inv_good_getJob)
  have I: "Inv' (importJobs st) (jobRefs st) (loops st) (nextLoop st) (intervals st) (published st) False"
    using assms(1) Inv'_parts(1)[of "importJobs st" "jobRefs st" "loops st" "nextLoop st" "intervals st" "published st" "crashed st"]
    by (simp add: Inv_def)
  have nc: "\<not> crashed st" using assms(1) by (auto simp: Inv_def dest: Inv'_parts(1))
  have g': "good (spread ?j u)"
    using g assms(2) by (auto simp: good_def harmless_def split: option.splits)
  have "Inv' ((importJobs st)(a \<mapsto> spread ?j u)) (jobRefs st) (loops st) (nextLoop st) (intervals st)
     (published st @ [(a, spread ?j u)]) False"
    by (rule Inv'_job[OF I, where j = ?j])
       (use assms(2) g' in \<open>auto simp: getJob_def harmless_def isJobRunning_def split: option.splits\<close>)
  then show ?thesis using nc by (simp add: Inv_def updateJobState_def publish_def)
qed

lemma Inv_False: "Inv st \<Longrightarrow> Inv' (importJobs st) (jobRefs st) (loops st) (nextLoop st) (intervals st) (published st) False"
  using Inv'_parts(1)[of "importJobs st" "jobRefs st" "loops st" "nextLoop st" "intervals st" "published st" "crashed st"]
  by (simp add: Inv_def)

lemma Inv_not_crashed: "Inv st \<Longrightarrow> \<not> crashed st"
  by (auto simp: Inv_def dest: Inv'_parts(1))

lemma Inv_toast: "Inv st \<Longrightarrow> Inv (toast t st)"
  by (simp add: Inv_def toast_def)

lemma Inv_set_refs: "Inv st \<Longrightarrow> Inv (st\<lparr> jobRefs := (jobRefs st)(a \<mapsto> r) \<rparr>)"
  using Inv'_refs[OF Inv_False, of st "(jobRefs st)(a \<mapsto> r)" "intervals st"] Inv_not_crashed[of st]
  by (simp add: Inv_def)

lemma Inv_clearTimer: "Inv st \<Longrightarrow> Inv (clearTimer a st)"
  using Inv'_refs[OF Inv_False, of st "jobRefs st" "(intervals st)(t := None)" for t] Inv_not_crashed[of st]
  by (auto simp: Inv_def clearTimer_def split: option.splits)

lemma Inv_setTimer:
  assumes "Inv st" "jobRefs st a \<noteq> None" "importJobs st a \<noteq> None"
  shows "Inv (setTimer a st)"
proof -
  obtain r where r: "jobRefs st a = Some r" using assms(2) by auto
  have "Inv' (importJobs st) ((jobRefs st)(a \<mapsto> r\<lparr> ref_timer := Some (nextTimer st) \<rparr>)) (loops st)
      (nextLoop st) ((intervals st)(nextTimer st \<mapsto> a)) (published st) False"
    by (rule Inv'_refs[OF Inv_False[OF assms(1)]]) (use assms(3) in auto)
  then show ?thesis using r Inv_not_crashed[OF assms(1)] by (simp add: Inv_def setTimer_def)
qed

lemma importJobs_updateJobState [simp]:
  "importJobs (updateJobState a u st) = (importJobs st)(a \<mapsto> spread (getJob st a) u)"
  "jobRefs (updateJobState a u st) = jobRefs st"
  "loops (updateJobState a u st) = loops st"
  "nextLoop (updateJobState a u st) = nextLoop st"
  "intervals (updateJobState a u st) = intervals st"
  "nextTimer (updateJobState a u st) = nextTimer st"
  "requests (updateJobState a u st) = requests st"
  "toasts (updateJobState a u st) = toasts st"
  "published (updateJobState a u st) = published st @ [(a, spread (getJob st a) u)]"
  "crashed (updateJobState a u st) = crashed st"
  by (simp_all add: updateJobState_def publish_def)

lemma getJob_refs_upd [simp]: "getJob (st\<lparr> jobRefs := x \<rparr>) a = getJob st a"
  by (simp add: getJob_def)

lemma Inv_pause: "Inv st \<Longrightarrow> status (getJob st a) = Running \<Longrightarrow> Inv (pauseImportJob a st)"
  unfolding pauseImportJob_def
  by (auto split: option.splits intro!: Inv_clearTimer Inv_updateJobState Inv_set_refs
      simp: harmless_def isJobRunning_def)

lemma Inv_resume: "Inv st \<Longrightarrow> status (getJob st a) = Paused \<Longrightarrow> Inv (resumeImportJob a st)"
  unfolding resumeImportJob_def
  by (auto split: option.splits intro!: Inv_setTimer Inv_updateJobState Inv_set_refs
      simp: harmless_def isJobRunning_def)

lemma Inv_stop: "Inv st \<Longrightarrow> Inv (stopImportJob a st)"
  unfolding stopImportJob_def
  by (auto split: option.splits intro!: Inv_clearTimer Inv_set_refs)

lemma Inv_settings:
  "Inv st \<Longrightarrow> p_status u = None \<Longrightarrow> p_results u = None \<Longrightarrow> p_progress u = None \<Longrightarrow>
   p_successCount u = None \<Longrightarrow> p_failCount u = None \<Longrightarrow> Inv (updateJobSettings a u st)"
  unfolding updateJobSettings_def by (rule Inv_updateJobState) (simp_all add: harmless_def)

lemma spread_all_fields: "spread j (all_fields j0) = j0"
  by (simp add: spread_def all_fields_def)

lemma Inv_clear:
  assumes "Inv st" "\<not> isJobRunning (getJob st a)"
  shows "Inv (clearImportJob a st)"
proof -
  have "Inv' ((importJobs st)(a \<mapsto> initialJobState)) (jobRefs st) (loops st) (nextLoop st) (intervals st)
     (published st @ [(a, initialJobState)]) False"
    by (rule Inv'_idle[OF Inv_False[OF assms(1)]])
       (use assms(2) in \<open>auto simp: getJob_def good_initial not_running_initial initial_not_completed\<close>)
  then show ?thesis using Inv_not_crashed[OF assms(1)]
    by (simp add: Inv_def clearImportJob_def spread_all_fields)
qed


lemma toast_sel [simp]:
  "importJobs (toast t st) = importJobs st" "jobRefs (toast t st) = jobRefs st"
  "loops (toast t st) = loops st" "nextLoop (toast t st) = nextLoop st"
  "intervals (toast t st) = intervals st" "nextTimer (toast t st) = nextTimer st"
  "requests (toast t st) = requests st" "toasts (toast t st) = toasts st @ [t]"
  "published (toast t st) = published st" "crashed (toast t st) = crashed st"
  by (simp_all add: toast_def)

lemma clearTimer_sel [simp]:
  "importJobs (clearTimer a st) = importJobs st" "jobRefs (clearTimer a st) = jobRefs st"
  "loops (clearTimer a st) = loops st" "nextLoop (clearTimer a st) = nextLoop st"
  "nextTimer (clearTimer a st) = nextTimer st"
  "requests (clearTimer a st) = requests st" "toasts (clearTimer a st) = toasts st"
  "published (clearTimer a st) = published st" "crashed (clearTimer a st) = crashed st"
  by (simp_all add: clearTimer_def split: option.splits)

lemma clearTimer_intervals:
  "intervals (clearTimer a st) t = Some b \<Longrightarrow> intervals st t = Some b"
  by (auto simp: clearTimer_def split: option.splits if_splits)

lemma suspend_sel [simp]:
  "importJobs (suspend k L s st) = importJobs st" "jobRefs (suspend k L s st) = jobRefs st"
  "loops (suspend k L s st) = (loops st)(k \<mapsto> L\<lparr> l_at := s \<rparr>)"
  "nextLoop (suspend k L s st) = nextLoop st"
  "intervals (suspend k L s st) = intervals st" "nextTimer (suspend k L s st) = nextTimer st"
  "requests (suspend k L s st) = requests st" "toasts (suspend k L s st) = toasts st"
  "published (suspend k L s st) = published st" "crashed (suspend k L s st) = crashed st"
  by (simp_all add: suspend_def)

lemma issue_fetch_sel [simp]:
  "importJobs (issue_fetch k L u st) = importJobs st" "jobRefs (issue_fetch k L u st) = jobRefs st"
  "loops (issue_fetch k L u st) = (loops st)(k \<mapsto> L\<lparr> l_at := AwaitFetch \<rparr>)"
  "nextLoop (issue_fetch k L u st) = nextLoop st"
  "intervals (issue_fetch k L u st) = intervals st" "nextTimer (issue_fetch k L u st) = nextTimer st"
  "requests (issue_fetch k L u st) = requests st @
     [\<lparr> q_user = u, q_accountId = l_accountId L, q_sendInvites = sendInvites (l_settings L) \<rparr>]"
  "toasts (issue_fetch k L u st) = toasts st"
  "published (issue_fetch k L u st) = published st" "crashed (issue_fetch k L u st) = crashed st"
  by (simp_all add: issue_fetch_def)

lemma publish_sel [simp]:
  "importJobs (publish a j st) = (importJobs st)(a \<mapsto> j)" "jobRefs (publish a j st) = jobRefs st"
  "loops (publish a j st) = loops st" "nextLoop (publish a j st) = nextLoop st"
  "intervals (publish a j st) = intervals st" "nextTimer (publish a j st) = nextTimer st"
  "requests (publish a j st) = requests st" "toasts (publish a j st) = toasts st"
  "published (publish a j st) = published st @ [(a, j)]" "crashed (publish a j st) = crashed st"
  by (simp_all add: publish_def)

lemma getJob_sel [simp]:
  "getJob (toast t st) = getJob st" "getJob (clearTimer a st) = getJob st"
  "getJob (suspend k L s st) = getJob st" "getJob (issue_fetch k L u st) = getJob st"
  by (simp_all add: getJob_def fun_eq_iff)

lemma getJob_upd: "importJobs st = m(a \<mapsto> j) \<Longrightarrow> getJob st a = j"
  by (simp add: getJob_def)

lemma Inv_after_loop:
  assumes I: "Inv' m0 refs ls n ivs pub0 False"
    and k: "ls k = Some L0" "l_at L0 \<noteq> Returned" "l_accountId L0 = a" "l_accountId L = a"
    and st: "importJobs st = m0(a \<mapsto> j1)" "jobRefs st = refs" "loops st = ls" "nextLoop st = n"
      "intervals st = ivs" "published st = pub0 @ ps" "\<not> crashed st"
    and ps: "pub_ok ps"
    and inp: "from_input L"
    and j1: "good j1" "results j1 = l_newResults L"
    and fin: "\<And>r. refs a = Some r \<Longrightarrow> \<not> ref_isStopped r \<Longrightarrow>
        length (l_newResults L) = length (l_users L) \<and> progress j1 = 100"
  shows "Inv (after_loop k L st)"
proof -
  obtain r where r: "refs a = Some r" using Inv'_parts(3)[OF I k(1,2)] k(3) by auto
  let ?s = "if ref_isStopped r then Stopped else Completed"
  let ?j = "spread j1 (no_updates\<lparr> p_status := Some ?s \<rparr>)"
  let ?L = "L\<lparr> l_at := Returned \<rparr>"
  have gj: "good ?j" using j1 fin[OF r] by (auto simp: good_def)
  have "Inv' (m0(a \<mapsto> ?j)) refs (ls(k \<mapsto> ?L)) n (intervals (clearTimer a st))
      (pub0 @ (ps @ [(a, ?j)])) False"
  proof (rule Inv'_loop[OF I k(1,2,3)])
    show "l_accountId ?L = a" using k by simp
    show "\<forall>t b. intervals (clearTimer a st) t = Some b \<longrightarrow> ivs t = Some b \<or> b = a"
      using clearTimer_intervals st by blast
    show "pub_ok (ps @ [(a, ?j)])" using ps gj by simp
    show "from_input ?L" using inp by simp
    show "good ?j" by (rule gj)
    show "l_at ?L = Returned \<longrightarrow> \<not> isJobRunning ?j \<and> (status ?j = Completed \<longrightarrow> finished ?j ?L)"
      using j1 fin[OF r] by (auto simp: isJobRunning_def finished_def)
  qed auto
  then show ?thesis using r st k
    by (cases "ref_isStopped r")
       (simp_all add: Inv_def after_loop_def Let_def getJob_upd[OF st(1)])
qed


lemma Inv_after_pause:
  assumes I: "Inv' m0 refs ls n ivs pub0 False"
    and k: "ls k = Some L0" "l_at L0 \<noteq> Returned" "l_accountId L0 = a" "l_accountId L = a"
    and st: "importJobs st = m0(a \<mapsto> j1)" "jobRefs st = refs" "loops st = ls" "nextLoop st = n"
      "intervals st = ivs" "published st = pub0 @ ps" "\<not> crashed st"
    and ps: "pub_ok ps"
    and inp: "from_input L"
    and j1: "good j1" "tracks j1 L"
  shows "Inv (after_pause k L st)"
proof -
  obtain r where r: "refs a = Some r" using Inv'_parts(3)[OF I k(1,2)] k(3) by auto
  have i: "l_i L < length (l_users L)" and res: "results j1 = l_newResults L"
    using j1(2) by (simp_all add: tracks_def)
  show ?thesis
  proof (cases "ref_isStopped r")
    case True
    have "Inv (after_loop k L (toast ''Job Ended'' st))"
      by (rule Inv_after_loop[OF I k, where ?j1.0 = j1 and ps = ps])
         (use st ps j1 res r True inp in auto)
    then show ?thesis using r st k True by (simp add: after_pause_def)
  next
    case False
    let ?u = "l_users L ! l_i L"
    have ua: "user_at L = Some ?u" using i by (simp add: user_at_def)
    show ?thesis
    proof (cases "0 < l_i L \<and> 0 < delayInSeconds (l_settings L)")
      case True
      let ?j = "spread j1 (no_updates\<lparr> p_nextUserEmail := Some (Some (email ?u)),
                     p_countdown := Some (delayInSeconds (l_settings L)) \<rparr>)"
      let ?L = "L\<lparr> l_at := AwaitCountdown \<rparr>"
      have gj: "good ?j" using j1 by (auto simp: good_def)
      have "Inv' (m0(a \<mapsto> ?j)) refs (ls(k \<mapsto> ?L)) n ivs (pub0 @ (ps @ [(a, ?j)])) False"
      proof (rule Inv'_loop[OF I k(1,2,3)])
        show "l_accountId ?L = a" using k by simp
        show "pub_ok (ps @ [(a, ?j)])" using ps gj by simp
    show "from_input ?L" using inp by simp
        show "good ?j" by (rule gj)
        show "l_at ?L \<noteq> Returned \<longrightarrow> tracks ?j ?L"
          using j1(2) by (simp add: tracks_def isJobRunning_def)
      qed auto
      then show ?thesis using r st k False True ua
        by (simp add: Inv_def after_pause_def getJob_upd[OF st(1)])
    next
      case F2: False
      let ?L = "L\<lparr> l_at := AwaitFetch \<rparr>"
      have "Inv' (m0(a \<mapsto> j1)) refs (ls(k \<mapsto> ?L)) n ivs (pub0 @ ps) False"
      proof (rule Inv'_loop[OF I k(1,2,3)])
        show "l_accountId ?L = a" using k by simp
        show "l_at ?L \<noteq> Returned \<longrightarrow> tracks j1 ?L"
          using j1(2) by (simp add: tracks_def)
      qed (use ps j1 inp in auto)
      then show ?thesis using r st k False F2 ua
        by (auto simp: Inv_def after_pause_def)
    qed
  qed
qed

lemma Inv_loop_head:
  assumes I: "Inv' m0 refs ls n ivs pub0 False"
    and k: "ls k = Some L0" "l_at L0 \<noteq> Returned" "l_accountId L0 = a" "l_accountId L = a"
    and st: "importJobs st = m0(a \<mapsto> j1)" "jobRefs st = refs" "loops st = ls" "nextLoop st = n"
      "intervals st = ivs" "published st = pub0 @ ps" "\<not> crashed st"
    and ps: "pub_ok ps"
    and inp: "from_input L"
    and j1: "good j1" "isJobRunning j1" "results j1 = l_newResults L"
      "successCount j1 = countS (l_newResults L)" "failCount j1 = countE (l_newResults L)"
      "length (l_newResults L) = l_i L" "l_i L \<le> length (l_users L)" "0 < length (l_users L)"
      "progress j1 = real (l_i L) / real (length (l_users L)) * 100"
  shows "Inv (loop_head k L st)"
proof -
  obtain r where r: "refs a = Some r" using Inv'_parts(3)[OF I k(1,2)] k(3) by auto
  show ?thesis
  proof (cases "l_i L < length (l_users L)")
    case True
    then have tr: "tracks j1 L" using j1 by (simp add: tracks_def)
    show ?thesis
    proof (cases "ref_isStopped r")
      case S: True
      have "Inv (after_loop k L (toast ''Job Ended'' st))"
        by (rule Inv_after_loop[OF I k, where ?j1.0 = j1 and ps = ps])
           (use st ps j1 r S inp in auto)
      then show ?thesis using r st k True S by (simp add: loop_head_def)
    next
      case NS: False
      show ?thesis
      proof (cases "ref_isPaused r")
        case P: True
        let ?L = "L\<lparr> l_at := AwaitPoll \<rparr>"
        have "Inv' (m0(a \<mapsto> j1)) refs (ls(k \<mapsto> ?L)) n ivs (pub0 @ ps) False"
        proof (rule Inv'_loop[OF I k(1,2,3)])
          show "l_accountId ?L = a" using k by simp
          show "l_at ?L \<noteq> Returned \<longrightarrow> tracks j1 ?L"
            using tr by (simp add: tracks_def)
        qed (use ps j1 inp in auto)
        then show ?thesis using r st k True NS P by (simp add: Inv_def loop_head_def)
      next
        case NP: False
        have "Inv (after_pause k L st)"
          by (rule Inv_after_pause[OF I k st ps inp j1(1) tr])
        then show ?thesis using r st k True NS NP by (simp add: loop_head_def)
      qed
    qed
  next
    case False
    then have e: "l_i L = length (l_users L)" using j1 by simp
    have "Inv (after_loop k L st)"
      by (rule Inv_after_loop[OF I k st ps inp j1(1) j1(3)]) (use e j1 in auto)
    then show ?thesis using False by (simp add: loop_head_def)
  qed
qed

lemma Inv_active:
  assumes "Inv st" "loops st k = Some L" "l_at L \<noteq> Returned"
  obtains r j where "jobRefs st (l_accountId L) = Some r" "importJobs st (l_accountId L) = Some j"
    "tracks j L" "good j" "from_input L"
  using Inv'_parts(3)[OF Inv_False[OF assms(1)] assms(2,3)] Inv'_parts(5)[OF Inv_False[OF assms(1)]]
    Inv'_parts(10)[OF Inv_False[OF assms(1)] assms(2)]
  by auto

lemma Inv_poll_wake:
  assumes "Inv st" "loops st k = Some L" "l_at L = AwaitPoll"
  shows "Inv (poll_wake k L st)"
proof -
  obtain r j where x: "jobRefs st (l_accountId L) = Some r"
    "importJobs st (l_accountId L) = Some j" "tracks j L" "good j" "from_input L"
    using Inv_active[OF assms(1,2)] assms(3) by auto
  have m: "importJobs st = (importJobs st)(l_accountId L \<mapsto> j)" using x(2) by (simp add: map_upd_triv)
  have ap: "Inv (after_pause k L st)"
    by (rule Inv_after_pause[OF Inv_False[OF assms(1)] assms(2) _ refl refl m, where ps = "[]"])
       (use assms x Inv_not_crashed[OF assms(1)] in auto)
  have "Inv (suspend k L AwaitPoll st)"
  proof -
    have "L\<lparr> l_at := AwaitPoll \<rparr> = L" using assms(3) by simp
    then have "suspend k L AwaitPoll st = st" using assms(2) by (simp add: suspend_def map_upd_triv)
    then show ?thesis using assms(1) by simp
  qed
  then show ?thesis using ap x by (simp add: poll_wake_def)
qed

lemma Inv_countdown_tick:
  assumes "Inv st" "loops st k = Some L" "l_at L = AwaitCountdown"
  shows "Inv (countdown_tick k L st)"
proof -
  let ?a = "l_accountId L"
  obtain r j where x: "jobRefs st ?a = Some r" "importJobs st ?a = Some j" "tracks j L" "good j"
    "from_input L"
    using Inv_active[OF assms(1,2)] assms(3) by auto
  note I = Inv_False[OF assms(1)]
  have nc: "\<not> crashed st" by (rule Inv_not_crashed[OF assms(1)])
  let ?j1 = "j\<lparr> countdown := countdown j - 1 \<rparr>"
  have g1: "good ?j1" using x(4) by (simp add: good_def)
  have i: "l_i L < length (l_users L)" using x(3) by (simp add: tracks_def)
  then have ua: "user_at L = Some (l_users L ! l_i L)" by (simp add: user_at_def)
  show ?thesis
  proof (cases "countdown j - 1 \<le> 0")
    case True
    let ?j2 = "spread ?j1 (no_updates\<lparr> p_nextUserEmail := Some None, p_countdown := Some 0 \<rparr>)"
    let ?L = "L\<lparr> l_at := AwaitFetch \<rparr>"
    have g2: "good ?j2" using g1 by (auto simp: good_def)
    have "Inv' ((importJobs st)(?a \<mapsto> ?j2)) (jobRefs st) ((loops st)(k \<mapsto> ?L)) (nextLoop st)
        (intervals st) (published st @ [(?a, ?j1), (?a, ?j2)]) False"
    proof (rule Inv'_loop[OF I assms(2)])
      show "l_at ?L \<noteq> Returned \<longrightarrow> tracks ?j2 ?L"
        using x(3) by (simp add: tracks_def isJobRunning_def)
    qed (use assms g1 g2 x(5) in auto)
    then show ?thesis using x True ua nc
      by (simp add: Inv_def countdown_tick_def Let_def getJob_def)
  next
    case False
    have "Inv' ((importJobs st)(?a \<mapsto> ?j1)) (jobRefs st) (loops st) (nextLoop st)
        (intervals st) (published st @ [(?a, ?j1)]) False"
      by (rule Inv'_job[OF I, where j = j]) (use x g1 in \<open>auto simp: isJobRunning_def\<close>)
    then show ?thesis using x False nc
      by (simp add: Inv_def countdown_tick_def Let_def)
  qed
qed

lemma countS_snoc:
  "countS (rs @ [r]) = countS rs + (if body_status r = Some Success then 1 else 0)"
  by (simp add: countS_def)

lemma countE_snoc:
  "countE (rs @ [r]) = countE rs + (if body_status r = Some Error then 1 else 0)"
  by (simp add: countE_def)

lemma status_cases:
  "has_status b \<Longrightarrow> body_status b = Some Success \<or> body_status b = Some Error"
  by (cases "body_status b"; cases "the (body_status b)") (auto simp: has_status_def)

lemma counts_total: "list_all has_status rs \<Longrightarrow> countS rs + countE rs = length rs"
proof (induction rs)
  case Nil
  then show ?case by (simp add: countS_def countE_def)
next
  case (Cons r rs)
  then show ?case using status_cases[of r] by (auto simp: countS_def countE_def)
qed

lemma percent_bounds: "0 \<le> (x::real) \<Longrightarrow> x \<le> 1 \<Longrightarrow> 0 \<le> x * 100 \<and> x * 100 \<le> 100"
  by simp

lemma Inv_fetch_done:
  assumes "Inv st" "loops st k = Some L" "l_at L = AwaitFetch"
  shows "Inv (fetch_done k L out st)"
proof -
  let ?a = "l_accountId L"
  obtain r j where x: "jobRefs st ?a = Some r" "importJobs st ?a = Some j" "tracks j L" "good j"
    "from_input L"
    using Inv_active[OF assms(1,2)] assms(3) by auto
  note I = Inv_False[OF assms(1)]
  have nc: "\<not> crashed st" by (rule Inv_not_crashed[OF assms(1)])
  have i: "l_i L < length (l_users L)" using x(3) by (simp add: tracks_def)
  then have ua: "user_at L = Some (l_users L ! l_i L)" by (simp add: user_at_def)
  let ?res = "result_of (request_for L (l_i L)) out"
  let ?L1 = "L\<lparr> l_newResults := l_newResults L @ [?res] \<rparr>"
  let ?L2 = "?L1\<lparr> l_i := l_i L + 1 \<rparr>"
  let ?j1 = "record_result ?L1 ?res j"
  let ?st1 = "publish ?a ?j1 st"
  have "real (l_i L + 1) \<le> real (length (l_users L))" and "0 < real (length (l_users L))"
    using i by linarith+
  then have le: "real (l_i L + 1) / real (length (l_users L)) \<le> 1"
    by (simp only: divide_le_eq_1_pos)
  have ge: "0 \<le> real (l_i L + 1) / real (length (l_users L))" by simp
  have run: "isJobRunning ?j1" using x(3) by (simp add: tracks_def record_result_def isJobRunning_def)
  have sc: "successCount ?j1 = countS (l_newResults ?L2)"
    and fc: "failCount ?j1 = countE (l_newResults ?L2)"
    using x(3) by (simp_all add: tracks_def record_result_def countS_snoc countE_snoc)
  have g1: "good ?j1"
    unfolding good_def
  proof (intro conjI)
    show "successCount ?j1 = countS (results ?j1)" "failCount ?j1 = countE (results ?j1)"
      using sc fc by (simp_all add: record_result_def)
    have pr: "progress ?j1 = real (l_i L + 1) / real (length (l_users L)) * 100"
      unfolding record_result_def by simp
    show "0 \<le> progress ?j1" unfolding pr using percent_bounds[OF ge le] by blast
    show "progress ?j1 \<le> 100" unfolding pr using percent_bounds[OF ge le] by blast
    show "status ?j1 = Completed \<longrightarrow> progress ?j1 = 100"
      using run by (auto simp: isJobRunning_def)
  qed
  have "Inv (loop_head k ?L2 ?st1)"
  proof (rule Inv_loop_head[OF I assms(2) _ refl, where ?j1.0 = ?j1 and ps = "[(?a, ?j1)]"])
    show "results ?j1 = l_newResults ?L2" by (simp add: record_result_def)
    show "length (l_newResults ?L2) = l_i ?L2" using x(3) by (simp add: tracks_def)
    show "progress ?j1 = real (l_i ?L2) / real (length (l_users ?L2)) * 100"
      by (simp add: record_result_def)
  qed (use assms nc g1 run sc fc i x(5) in auto)
  then show ?thesis using x ua
    by (simp add: fetch_done_def modifyJob_def Let_def request_for_def)
qed

lemma Inv_elapsed_tick:
  assumes "Inv st"
  shows "Inv (elapsed_tick t st)"
proof (cases "intervals st t")
  case None
  then show ?thesis using assms by (simp add: elapsed_tick_def)
next
  case (Some a)
  note I = Inv_False[OF assms(1)]
  obtain j where j: "importJobs st a = Some j" using Inv'_parts(9)[OF I Some] by auto
  have g: "good j" using Inv'_parts(5)[OF I j] .
  let ?j1 = "j\<lparr> timeElapsed := timeElapsed j + 1 \<rparr>"
  have "Inv' ((importJobs st)(a \<mapsto> ?j1)) (jobRefs st) (loops st) (nextLoop st)
        (intervals st) (published st @ [(a, ?j1)]) False"
    by (rule Inv'_job[OF I, where j = j]) (use j g in \<open>auto simp: isJobRunning_def good_def\<close>)
  then show ?thesis using Some j Inv_not_crashed[OF assms]
    by (simp add: Inv_def elapsed_tick_def modifyJob_def)
qed


lemma Inv_start:
  assumes "Inv st" "\<not> isJobRunning (getJob st a)" "users \<noteq> []"
    "users = parseUserData (userEmails (getJob st a))"
  shows "Inv (startImportJob a users st)"
proof -
  note I = Inv_False[OF assms(1)]
  have nc: "\<not> crashed st" by (rule Inv_not_crashed[OF assms(1)])
  have u: "0 < length users" using assms(3) by simp
  show ?thesis
    using nc u
    apply (simp add: Inv_def startImportJob_def Let_def setTimer_def loop_head_def
        after_pause_def user_at_def)
    apply (rule Inv'_start[OF I])
    using assms(2,4) Inv_good_getJob[OF assms(1), of a]
           apply (auto simp: getJob_def tracks_def good_def isJobRunning_def countS_def countE_def
             from_input_def)
    done
qed


lemma panel_cases:
  "start_panel j \<Longrightarrow> \<not> isJobRunning j"
  "\<not> start_panel j \<Longrightarrow> status j \<noteq> Paused \<Longrightarrow> status j = Running"
  by (cases "status j"; simp add: start_panel_def isJobRunning_def)+

lemma Inv_handleStartImport:
  assumes "Inv st" "\<not> isJobRunning (getJob st a)"
  shows "Inv (handleStartImport (Some a) st)"
  using assms by (auto simp: handleStartImport_def Let_def intro!: Inv_toast Inv_start)

lemma Inv_click:
  assumes "Inv st"
  shows "Inv (click a act st)"
proof (cases act)
  case (SetUserEmails x)
  then show ?thesis using assms by (simp add: click_def Inv_settings)
next
  case (SetSendInvites x)
  then show ?thesis using assms by (simp add: click_def Inv_settings)
next
  case (SetDelayInSeconds x)
  then show ?thesis using assms by (simp add: click_def Inv_settings)
next
  case ClickStartImport
  then show ?thesis using assms
    by (auto simp: click_def Let_def intro!: Inv_handleStartImport dest: panel_cases(1))
next
  case ClickPause
  then show ?thesis using assms
    by (auto simp: click_def Let_def intro!: Inv_pause dest: panel_cases(2))
next
  case ClickResume
  then show ?thesis using assms
    by (auto simp: click_def Let_def intro!: Inv_resume)
next
  case ClickEndJob
  then show ?thesis using assms
    by (auto simp: click_def Let_def intro!: Inv_stop)
next
  case ClickClearAll
  then show ?thesis using assms
    by (auto simp: click_def Let_def handleClearAll_def intro!: Inv_toast Inv_clear)
qed

lemma Inv_step:
  assumes "Inv st"
  shows "Inv (step e st)"
proof (cases e)
  case (Click a act)
  then show ?thesis using assms by (simp add: Inv_click)
next
  case (ElapsedTick t)
  then show ?thesis using assms by (simp add: Inv_elapsed_tick)
next
  case (PollWake k)
  then show ?thesis using assms
    by (auto simp: resume_at_def Inv_poll_wake split: option.splits)
next
  case (CountdownTick k)
  then show ?thesis using assms
    by (auto simp: resume_at_def Inv_countdown_tick split: option.splits)
next
  case (FetchDone k out)
  then show ?thesis using assms
    by (auto simp: resume_at_def Inv_fetch_done split: option.splits)
qed

lemma Inv_run: "Inv st \<Longrightarrow> Inv (run evs st)"
  unfolding run_def by (induction evs arbitrary: st) (simp_all add: Inv_step)

lemma Inv_initial: "Inv initial_sys"
  by (simp add: Inv_def Inv'_def initial_sys_def loops_ok_def active_ok_def jobs_ok_def
      timers_ok_def)

lemma Inv_after: "Inv (after evs)"
  unfolding after_def by (rule Inv_run[OF Inv_initial])

section \<open>Clearing a job\<close>

text \<open>
  C9. \<^verbatim>\<open>clearImportJob\<close> leaves the job of the account equal to \<^verbatim>\<open>initialJobState\<close>: status
  idle, no results, both counters, the progress, the elapsed time and the countdown zero,
  no pending email, and the configuration back at its defaults (empty input text, send
  invitations, delay of one second). The function has no guard, so this holds whatever the
  status was, in particular when it was not running or paused.
\<close>

theorem clear_resets_job:
  "getJob (clearImportJob a st) a = initialJobState
   \<and> status initialJobState = Idle \<and> results initialJobState = []
   \<and> successCount initialJobState = 0 \<and> failCount initialJobState = 0
   \<and> progress initialJobState = 0 \<and> timeElapsed initialJobState = 0
   \<and> countdown initialJobState = 0 \<and> nextUserEmail initialJobState = None
   \<and> userEmails initialJobState = [] \<and> sendInvites initialJobState = True
   \<and> delayInSeconds initialJobState = 1"
  by (simp add: clearImportJob_def getJob_def spread_all_fields initialJobState_def)

section \<open>Validation before a start\<close>

text \<open>
  C6. When parsing and filtering the input text of the active account leaves no record,
  \<^verbatim>\<open>handleStartImport\<close> only shows the "Invalid Data" toast: the jobs (status, results,
  counters), the refs and the invocations are what they were, nothing is written to the
  store, and no request is sent.
\<close>

theorem no_valid_records_no_start:
  assumes "parseUserData (userEmails (getJob st a)) = []"
  shows "handleStartImport (Some a) st = toast ''Invalid Data'' st
     \<and> importJobs (handleStartImport (Some a) st) = importJobs st
     \<and> jobRefs (handleStartImport (Some a) st) = jobRefs st
     \<and> loops (handleStartImport (Some a) st) = loops st
     \<and> requests (handleStartImport (Some a) st) = requests st
     \<and> published (handleStartImport (Some a) st) = published st
     \<and> toasts (handleStartImport (Some a) st) = toasts st @ [''Invalid Data'']"
  using assms by (simp add: handleStartImport_def Let_def)

theorem no_valid_records_witness:
  "parseUserData (userEmails (getJob pasted_invalid ''acct'')) = []
   \<and> handleStartImport (Some ''acct'') pasted_invalid = toast ''Invalid Data'' pasted_invalid
   \<and> status (getJob (handleStartImport (Some ''acct'') pasted_invalid) ''acct'') = Idle
   \<and> requests (handleStartImport (Some ''acct'') pasted_invalid) = []"
proof -
  have h: "parseUserData (userEmails (getJob pasted_invalid ''acct'')) = []" by code_simp
  have s: "status (getJob pasted_invalid ''acct'') = Idle" "requests pasted_invalid = []"
    by code_simp+
  show ?thesis using h s no_valid_records_no_start[OF h] by simp
qed

section \<open>Pause and resume\<close>


section \<open>One run per account\<close>

text \<open>
  C2, as stated, fails: \<^verbatim>\<open>startImportJob\<close> called while the job is running, with one result
  recorded, empties the results, zeroes the counter, and leaves two invocations of the
  loop for the same account, each awaiting its request.
\<close>

theorem second_start_counterexample:
  "status (getJob one_done ''acct'') = Running
   \<and> length (results (getJob one_done ''acct'')) = 1
   \<and> successCount (getJob one_done ''acct'') = 1
   \<and> results (getJob restarted ''acct'') = []
   \<and> successCount (getJob restarted ''acct'') = 0
   \<and> map_option l_at (loops restarted 0) = Some AwaitFetch
   \<and> map_option l_at (loops restarted 1) = Some AwaitFetch
   \<and> map_option l_accountId (loops restarted 0) = Some ''acct''
   \<and> map_option l_accountId (loops restarted 1) = Some ''acct''"
  by code_simp


lemma spread_status: "spread j (no_updates\<lparr> p_status := Some s \<rparr>) = j\<lparr> status := s \<rparr>"
  by (simp add: spread_def no_updates_def)

lemma getJob_publish [simp]: "getJob (publish a j st) b = (if b = a then j else getJob st b)"
  by (simp add: getJob_def)

lemma getJob_updateJobState [simp]:
  "getJob (updateJobState a u st) b = (if b = a then spread (getJob st a) u else getJob st b)"
  by (simp add: updateJobState_def)

lemma getJob_setTimer [simp]: "getJob (setTimer a st) = getJob st"
  by (auto simp: getJob_def setTimer_def fun_eq_iff split: option.splits)

lemma getJob_crashed [simp]: "getJob (st\<lparr> crashed := c \<rparr>) = getJob st"
  by (simp add: getJob_def fun_eq_iff)

lemma pause_job:
  "getJob (pauseImportJob a st) b =
     (if b = a \<and> jobRefs st a \<noteq> None then (getJob st b)\<lparr> status := Paused \<rparr> else getJob st b)"
  by (auto simp: pauseImportJob_def spread_status split: option.splits)

lemma resume_job:
  "getJob (resumeImportJob a st) b =
     (if b = a \<and> jobRefs st a \<noteq> None then (getJob st b)\<lparr> status := Running \<rparr> else getJob st b)"
  by (auto simp: resumeImportJob_def spread_status split: option.splits)

lemma setTimer_sel [simp]:
  "importJobs (setTimer a st) = importJobs st" "loops (setTimer a st) = loops st"
  "nextLoop (setTimer a st) = nextLoop st" "requests (setTimer a st) = requests st"
  "toasts (setTimer a st) = toasts st" "published (setTimer a st) = published st"
  by (simp_all add: setTimer_def split: option.splits)

text \<open>
  C2, amended. The guard is on the page, not in \<^verbatim>\<open>startImportJob\<close>: in every state
  reachable through the page and the events of the run, two suspended invocations never
  belong to the same account; and while the job of an account is running or paused there
  is such an invocation for it, and a click on Start Import changes nothing.
\<close>

theorem one_loop_per_account:
  "(\<forall>k k' L L'. loops (after evs) k = Some L \<and> loops (after evs) k' = Some L'
        \<and> l_at L \<noteq> Returned \<and> l_at L' \<noteq> Returned \<and> l_accountId L = l_accountId L'
        \<longrightarrow> k = k')
   \<and> (isJobRunning (getJob (after evs) a) \<longrightarrow>
        (\<exists>k L. loops (after evs) k = Some L \<and> l_at L \<noteq> Returned \<and> l_accountId L = a)
        \<and> click a ClickStartImport (after evs) = after evs)"
proof -
  note P = Inv'_parts[OF Inv_False[OF Inv_after[of evs]]]
  have 1: "\<forall>k k' L L'. loops (after evs) k = Some L \<and> loops (after evs) k' = Some L'
        \<and> l_at L \<noteq> Returned \<and> l_at L' \<noteq> Returned \<and> l_accountId L = l_accountId L'
        \<longrightarrow> k = k'"
    using P(4) by blast
  have 2: "isJobRunning (getJob (after evs) a) \<longrightarrow>
        (\<exists>k L. loops (after evs) k = Some L \<and> l_at L \<noteq> Returned \<and> l_accountId L = a)"
  proof
    assume r: "isJobRunning (getJob (after evs) a)"
    then obtain j where "importJobs (after evs) a = Some j" "isJobRunning j"
      using not_running_initial by (cases "importJobs (after evs) a") (auto simp: getJob_def)
    then show "\<exists>k L. loops (after evs) k = Some L \<and> l_at L \<noteq> Returned \<and> l_accountId L = a"
      using P(6) by blast
  qed
  have 3: "isJobRunning (getJob (after evs) a) \<longrightarrow>
      click a ClickStartImport (after evs) = after evs"
    by (simp add: click_def)
  show ?thesis using 1 2 3 by blast
qed

theorem one_loop_per_account_witness:
  "isJobRunning (getJob (started 0) ''acct'')
   \<and> map_option l_at (loops (started 0) 0) = Some AwaitFetch
   \<and> (\<exists>k L. loops (started 0) k = Some L \<and> l_at L \<noteq> Returned \<and> l_accountId L = ''acct'')
   \<and> click ''acct'' ClickStartImport (started 0) = started 0"
proof -
  have r: "isJobRunning (getJob (started 0) ''acct'')"
    and l: "map_option l_at (loops (started 0) 0) = Some AwaitFetch"
    by code_simp+
  show ?thesis
    using r l one_loop_per_account[of "[Click ''acct'' (SetUserEmails two_lines),
        Click ''acct'' (SetDelayInSeconds 0), Click ''acct'' ClickStartImport]" "''acct''"]
    by (simp add: started_def)
qed

section \<open>Counters and results\<close>

lemma run_append: "run (xs @ ys) st = run ys (run xs st)"
  by (simp add: run_def)

lemma run_after: "run es (after evs) = after (evs @ es)"
  by (simp add: after_def run_append)

lemma step_after: "step e (after evs) = after (evs @ [e])"
  by (simp add: after_def run_def)

lemma after_loop_published: "\<exists>rest. published (after_loop k L st) = published st @ rest"
  by (simp add: after_loop_def Let_def split: option.splits)

lemma after_pause_published: "\<exists>rest. published (after_pause k L st) = published st @ rest"
  using after_loop_published[of k L "toast ''Job Ended'' st"]
  by (simp add: after_pause_def split: option.splits)

lemma loop_head_published: "\<exists>rest. published (loop_head k L st) = published st @ rest"
  using after_loop_published[of k L "toast ''Job Ended'' st"] after_loop_published[of k L st]
    after_pause_published[of k L st]
  by (simp add: loop_head_def split: option.splits)

lemma one_counter:
  assumes "has_status r"
  shows "(successCount (record_result L r j) = successCount j + 1
       \<and> failCount (record_result L r j) = failCount j)
   \<or> (successCount (record_result L r j) = successCount j
       \<and> failCount (record_result L r j) = failCount j + 1)"
  using status_cases[OF assms] by (auto simp: record_result_def)

lemma result_has_status: "q_accountId req \<noteq> [] \<Longrightarrow> has_status (result_of req out)"
  by (cases out)
     (auto simp: result_of_def has_status_def body_status_def import_user_def Let_def
        split: option.splits clerk_reply.splits)

lemma fetch_done_publishes:
  assumes "Inv st" "loops st k = Some L" "l_at L = AwaitFetch"
  shows "\<exists>j1 rest. l_i L < length (l_users L)
     \<and> published (step (FetchDone k out) st) = published st @ (l_accountId L, j1) # rest
     \<and> results j1 = results (getJob st (l_accountId L)) @ [result_of (request_for L (l_i L)) out]
     \<and> j1 = record_result (L\<lparr> l_newResults := l_newResults L @ [result_of (request_for L (l_i L)) out] \<rparr>)
              (result_of (request_for L (l_i L)) out) (getJob st (l_accountId L))"
proof -
  let ?a = "l_accountId L"
  obtain r j where x: "jobRefs st ?a = Some r" "importJobs st ?a = Some j" "tracks j L" "good j"
    "from_input L"
    using Inv_active[OF assms(1,2)] assms(3) by auto
  have gj: "getJob st ?a = j" using x(2) by (simp add: getJob_def)
  have i: "l_i L < length (l_users L)" using x(3) by (simp add: tracks_def)
  have ua: "user_at L = Some (l_users L ! l_i L)" using i by (simp add: user_at_def)
  let ?res = "result_of (request_for L (l_i L)) out"
  let ?L1 = "L\<lparr> l_newResults := l_newResults L @ [?res] \<rparr>"
  let ?j1 = "record_result ?L1 ?res j"
  obtain rest where rest: "published (loop_head k (?L1\<lparr> l_i := l_i L + 1 \<rparr>) (publish ?a ?j1 st))
      = published (publish ?a ?j1 st) @ rest"
    using loop_head_published by blast
  have st': "step (FetchDone k out) st = loop_head k (?L1\<lparr> l_i := l_i L + 1 \<rparr>) (publish ?a ?j1 st)"
    using assms(2,3) ua x(2)
    by (simp add: resume_at_def fetch_done_def modifyJob_def Let_def request_for_def)
  have p: "published (step (FetchDone k out) st) = published st @ (?a, ?j1) # rest"
    using rest st' by simp
  have res: "results ?j1 = results j @ [?res]"
    using x(3) by (simp add: record_result_def tracks_def)
  show ?thesis using i p res gj by blast
qed

subsection \<open>Every stored result of an account with a non-empty id has a status\<close>

lemma statused_getJob: "statused st \<Longrightarrow> a \<noteq> [] \<Longrightarrow> list_all has_status (results (getJob st a))"
  by (cases "importJobs st a") (auto simp: statused_def getJob_def initialJobState_def)

lemma statused_publish:
  assumes "statused st" "a \<noteq> [] \<Longrightarrow> list_all has_status (results j)"
  shows "statused (publish a j st)"
  using assms by (auto simp: statused_def)

lemma statused_updateJobState:
  assumes "statused st" "p_results u = None \<or> p_results u = Some []"
  shows "statused (updateJobState a u st)"
  unfolding updateJobState_def
  using assms statused_getJob[OF assms(1), of a] by (intro statused_publish) auto

lemma statused_suspend:
  assumes "statused st" "l_accountId L \<noteq> [] \<Longrightarrow> list_all has_status (l_newResults L)"
  shows "statused (suspend k L s st)"
  using assms by (auto simp: statused_def)

lemma statused_issue_fetch:
  assumes "statused st" "l_accountId L \<noteq> [] \<Longrightarrow> list_all has_status (l_newResults L)"
  shows "statused (issue_fetch k L u st)"
  using assms by (auto simp: statused_def)

lemma statused_simple:
  assumes "statused st"
  shows "statused (toast t st)" "statused (clearTimer a st)" "statused (setTimer a st)"
    "statused (st\<lparr> crashed := c \<rparr>)" "statused (st\<lparr> jobRefs := r \<rparr>)"
  using assms by (auto simp: statused_def)

lemma statused_after_loop:
  assumes "statused st" "l_accountId L \<noteq> [] \<Longrightarrow> list_all has_status (l_newResults L)"
  shows "statused (after_loop k L st)"
  using assms
  by (auto simp: after_loop_def Let_def split: option.splits
      intro!: statused_simple statused_suspend statused_updateJobState)

lemma statused_after_pause:
  assumes "statused st" "l_accountId L \<noteq> [] \<Longrightarrow> list_all has_status (l_newResults L)"
  shows "statused (after_pause k L st)"
  using assms
  by (auto simp: after_pause_def split: option.splits
      intro!: statused_simple statused_suspend statused_updateJobState statused_issue_fetch
        statused_after_loop)

lemma statused_loop_head:
  assumes "statused st" "l_accountId L \<noteq> [] \<Longrightarrow> list_all has_status (l_newResults L)"
  shows "statused (loop_head k L st)"
  using assms
  by (auto simp: loop_head_def split: option.splits
      intro!: statused_simple statused_suspend statused_after_loop statused_after_pause)

lemma statused_poll_wake:
  assumes "statused st" "l_accountId L \<noteq> [] \<Longrightarrow> list_all has_status (l_newResults L)"
  shows "statused (poll_wake k L st)"
  using assms
  by (auto simp: poll_wake_def split: option.splits
      intro!: statused_simple statused_suspend statused_after_pause)

lemma statused_countdown_tick:
  assumes "statused st" "l_accountId L \<noteq> [] \<Longrightarrow> list_all has_status (l_newResults L)"
  shows "statused (countdown_tick k L st)"
proof (cases "importJobs st (l_accountId L)")
  case None
  then show ?thesis using assms(1) by (simp add: countdown_tick_def statused_simple)
next
  case (Some j)
  have j: "l_accountId L \<noteq> [] \<Longrightarrow> list_all has_status (results j)"
    using assms(1) Some by (auto simp: statused_def)
  have "statused (publish (l_accountId L) (j\<lparr> countdown := countdown j - 1 \<rparr>) st)"
    using assms(1) j by (intro statused_publish) auto
  then show ?thesis
    using Some assms(2)
    by (auto simp: countdown_tick_def Let_def split: option.splits
        intro!: statused_simple statused_issue_fetch statused_updateJobState)
qed

lemma statused_fetch_done:
  assumes "statused st" "l_accountId L \<noteq> [] \<Longrightarrow> list_all has_status (l_newResults L)"
  shows "statused (fetch_done k L out st)"
proof (cases "user_at L")
  case None
  then show ?thesis using assms(1) by (simp add: fetch_done_def statused_simple)
next
  case (Some user)
  let ?res = "result_of \<lparr> q_user = user, q_accountId = l_accountId L,
                           q_sendInvites = sendInvites (l_settings L) \<rparr> out"
  let ?L1 = "L\<lparr> l_newResults := l_newResults L @ [?res] \<rparr>"
  have n: "l_accountId L \<noteq> [] \<Longrightarrow> list_all has_status (l_newResults L @ [?res])"
    using assms(2) result_has_status[of "\<lparr> q_user = user, q_accountId = l_accountId L,
                           q_sendInvites = sendInvites (l_settings L) \<rparr>" out]
    by simp
  have m: "statused (modifyJob (l_accountId L) (record_result ?L1 ?res) st)"
    using assms(1) n
    by (auto simp: modifyJob_def record_result_def split: option.splits
        intro!: statused_simple statused_publish)
  have "statused (loop_head k (?L1\<lparr> l_i := l_i L + 1 \<rparr>)
          (modifyJob (l_accountId L) (record_result ?L1 ?res) st))"
    using m n by (intro statused_loop_head) auto
  then show ?thesis using Some by (simp add: fetch_done_def Let_def)
qed

lemma statused_elapsed_tick: "statused st \<Longrightarrow> statused (elapsed_tick t st)"
  by (auto simp: elapsed_tick_def modifyJob_def statused_def split: option.splits)

lemma statused_start: "statused st \<Longrightarrow> statused (startImportJob a users st)"
  unfolding startImportJob_def Let_def
  by (intro statused_loop_head)
     (auto simp: statused_def split: option.splits)

lemma statused_click: "statused st \<Longrightarrow> statused (click a act st)"
  by (cases act)
     (auto simp: click_def Let_def updateJobSettings_def handleStartImport_def
        handleClearAll_def clearImportJob_def pauseImportJob_def resumeImportJob_def
        stopImportJob_def all_fields_def initialJobState_def split: option.splits
        intro!: statused_simple statused_updateJobState statused_start)

lemma statused_step:
  assumes "statused st"
  shows "statused (step e st)"
proof -
  have l: "\<And>k L. loops st k = Some L \<Longrightarrow> l_accountId L \<noteq> [] \<Longrightarrow>
      list_all has_status (l_newResults L)"
    using assms by (auto simp: statused_def)
  show ?thesis
    using assms l
    by (cases e)
       (auto simp: resume_at_def statused_click statused_elapsed_tick split: option.splits
          intro!: statused_poll_wake statused_countdown_tick statused_fetch_done)
qed

lemma statused_after: "statused (after evs)"
proof -
  have "statused st \<Longrightarrow> statused (run es st)" for es st
    unfolding run_def by (induction es arbitrary: st) (simp_all add: statused_step)
  moreover have "statused initial_sys" by (simp add: statused_def initial_sys_def)
  ultimately show ?thesis by (simp add: after_def)
qed

text \<open>
  C1. In every state reachable through the page and the events of the run, each counter
  of a job is the number of its results with that status. The endpoint answers a request
  with an empty account id by an object without status, which the loop stores without
  moving a counter; account ids are created by the backend as UUIDs, and for every account
  with a non-empty id the following holds. The stored results all have a status, so the
  two counters add up to the number of results, in the store and in every job value ever
  written for the account. When a request of the account settles, the next value written
  to the store has exactly one more result, the one for the current record, and exactly
  one of the two counters is one higher. For every account: when the status is completed,
  the results are those of the most recent invocation for the account, which has returned,
  and their number is the number of records that parsing and filtering the input text gave
  when that run was started.
\<close>

theorem counters_match_results:
  "successCount (getJob (after evs) a) = countS (results (getJob (after evs) a))
   \<and> failCount (getJob (after evs) a) = countE (results (getJob (after evs) a))
   \<and> (a \<noteq> [] \<longrightarrow>
        list_all has_status (results (getJob (after evs) a))
        \<and> successCount (getJob (after evs) a) + failCount (getJob (after evs) a)
            = length (results (getJob (after evs) a))
        \<and> (\<forall>p \<in> set (published (after evs)). fst p = a \<longrightarrow>
              successCount (snd p) + failCount (snd p) = length (results (snd p)))
        \<and> (\<forall>k L out. loops (after evs) k = Some L \<and> l_at L = AwaitFetch \<and> l_accountId L = a \<longrightarrow>
              (\<exists>j1 rest. l_i L < length (l_users L)
                 \<and> published (step (FetchDone k out) (after evs))
                     = published (after evs) @ (a, j1) # rest
                 \<and> results j1
                     = results (getJob (after evs) a) @ [result_of (request_for L (l_i L)) out]
                 \<and> (successCount j1 = successCount (getJob (after evs) a) + 1
                      \<and> failCount j1 = failCount (getJob (after evs) a)
                    \<or> successCount j1 = successCount (getJob (after evs) a)
                      \<and> failCount j1 = failCount (getJob (after evs) a) + 1))))
   \<and> (status (getJob (after evs) a) = Completed \<longrightarrow>
        (\<exists>k L. loops (after evs) k = Some L \<and> l_accountId L = a
           \<and> latest (loops (after evs)) k a \<and> l_at L = Returned
           \<and> l_users L = parseUserData (userEmails (l_settings L))
           \<and> results (getJob (after evs) a) = l_newResults L
           \<and> length (results (getJob (after evs) a))
               = length (parseUserData (userEmails (l_settings L)))))"
proof -
  let ?st = "after evs"
  note I = Inv_after[of evs]
  note P = Inv'_parts[OF Inv_False[OF I]]
  note S = statused_after[of evs]
  have 0: "successCount (getJob ?st a) = countS (results (getJob ?st a))
      \<and> failCount (getJob ?st a) = countE (results (getJob ?st a))"
    using Inv_good_getJob[OF I, of a] by (simp add: good_def)
  have 1: "list_all has_status (results (getJob ?st a))
      \<and> successCount (getJob ?st a) + failCount (getJob ?st a) = length (results (getJob ?st a))"
    if "a \<noteq> []"
    using 0 statused_getJob[OF S that] counts_total[of "results (getJob ?st a)"] by simp
  have 2: "\<forall>p \<in> set (published ?st). fst p = a \<longrightarrow>
         successCount (snd p) + failCount (snd p) = length (results (snd p))"
    if a: "a \<noteq> []"
  proof (intro ballI impI)
    fix p assume p: "p \<in> set (published ?st)" "fst p = a"
    have g: "good (snd p)" using P(8) p(1) by (auto simp: pub_ok_def)
    have "list_all has_status (results (snd p))" using S p a by (auto simp: statused_def)
    then show "successCount (snd p) + failCount (snd p) = length (results (snd p))"
      using g counts_total[of "results (snd p)"] by (simp add: good_def)
  qed
  have 4: "\<forall>k L out. loops ?st k = Some L \<and> l_at L = AwaitFetch \<and> l_accountId L = a \<longrightarrow>
        (\<exists>j1 rest. l_i L < length (l_users L)
           \<and> published (step (FetchDone k out) ?st) = published ?st @ (a, j1) # rest
           \<and> results j1 = results (getJob ?st a) @ [result_of (request_for L (l_i L)) out]
           \<and> (successCount j1 = successCount (getJob ?st a) + 1
                \<and> failCount j1 = failCount (getJob ?st a)
              \<or> successCount j1 = successCount (getJob ?st a)
                \<and> failCount j1 = failCount (getJob ?st a) + 1))"
    if a: "a \<noteq> []"
  proof (intro allI impI)
    fix k L out
    assume h: "loops ?st k = Some L \<and> l_at L = AwaitFetch \<and> l_accountId L = a"
    let ?res = "result_of (request_for L (l_i L)) out"
    let ?L1 = "L\<lparr> l_newResults := l_newResults L @ [?res] \<rparr>"
    obtain j1 rest where x: "l_i L < length (l_users L)"
      "published (step (FetchDone k out) ?st) = published ?st @ (l_accountId L, j1) # rest"
      "results j1 = results (getJob ?st (l_accountId L)) @ [?res]"
      "j1 = record_result ?L1 ?res (getJob ?st (l_accountId L))"
      using fetch_done_publishes[OF I, of k L out] h by blast
    have "has_status ?res" using a h by (intro result_has_status) (simp add: request_for_def)
    from one_counter[OF this, of ?L1 "getJob ?st (l_accountId L)"] x h
    show "\<exists>j1 rest. l_i L < length (l_users L)
           \<and> published (step (FetchDone k out) ?st) = published ?st @ (a, j1) # rest
           \<and> results j1 = results (getJob ?st a) @ [result_of (request_for L (l_i L)) out]
           \<and> (successCount j1 = successCount (getJob ?st a) + 1
                \<and> failCount j1 = failCount (getJob ?st a)
              \<or> successCount j1 = successCount (getJob ?st a)
                \<and> failCount j1 = failCount (getJob ?st a) + 1)"
      by auto
  qed
  have 3: "status (getJob ?st a) = Completed \<longrightarrow>
        (\<exists>k L. loops ?st k = Some L \<and> l_accountId L = a
           \<and> latest (loops ?st) k a \<and> l_at L = Returned
           \<and> l_users L = parseUserData (userEmails (l_settings L))
           \<and> results (getJob ?st a) = l_newResults L
           \<and> length (results (getJob ?st a))
               = length (parseUserData (userEmails (l_settings L))))"
  proof
    assume c: "status (getJob ?st a) = Completed"
    then obtain j where j: "importJobs ?st a = Some j" "status j = Completed"
      using initial_not_completed by (cases "importJobs ?st a") (auto simp: getJob_def)
    then obtain k L where x: "loops ?st k = Some L" "l_accountId L = a" "l_at L = Returned"
      "finished j L" "latest (loops ?st) k a"
      using P(7) by blast
    have fi: "from_input L" using P(10)[OF x(1)] .
    have gj: "getJob ?st a = j" using j by (simp add: getJob_def)
    show "\<exists>k L. loops ?st k = Some L \<and> l_accountId L = a
           \<and> latest (loops ?st) k a \<and> l_at L = Returned
           \<and> l_users L = parseUserData (userEmails (l_settings L))
           \<and> results (getJob ?st a) = l_newResults L
           \<and> length (results (getJob ?st a))
               = length (parseUserData (userEmails (l_settings L)))"
      using x fi gj by (auto simp: finished_def from_input_def)
  qed
  show ?thesis using 0 1 2 3 4 by blast
qed

lemma both_done_after:
  "both_done = after [Click ''acct'' (SetUserEmails two_lines), Click ''acct'' (SetDelayInSeconds 0),
        Click ''acct'' ClickStartImport, FetchDone 0 invited, FetchDone 0 Threw]"
  by (simp add: both_done_def one_done_def started_def run_after)

theorem counters_match_results_witness:
  "status (getJob both_done ''acct'') = Completed
   \<and> map body_status (results (getJob both_done ''acct'')) = [Some Success, Some Error]
   \<and> successCount (getJob both_done ''acct'') = 1 \<and> failCount (getJob both_done ''acct'') = 1
   \<and> length (results (getJob both_done ''acct'')) = 2
   \<and> length (parseUserData two_lines) = 2
   \<and> (\<exists>k L. loops both_done k = Some L \<and> l_accountId L = ''acct''
         \<and> latest (loops both_done) k ''acct'' \<and> l_at L = Returned
         \<and> l_users L = parseUserData (userEmails (l_settings L))
         \<and> results (getJob both_done ''acct'') = l_newResults L
         \<and> length (results (getJob both_done ''acct''))
             = length (parseUserData (userEmails (l_settings L))))
   \<and> map_option l_at (loops (started 0) 0) = Some AwaitFetch
   \<and> (\<exists>j1 rest. published (step (FetchDone 0 invited) (started 0))
                       = published (started 0) @ (''acct'', j1) # rest
         \<and> length (results j1) = 1
         \<and> (successCount j1 = 1 \<and> failCount j1 = 0 \<or> successCount j1 = 0 \<and> failCount j1 = 1))"
proof -
  let ?L = "the (loops (started 0) 0)"
  have c: "status (getJob both_done ''acct'') = Completed"
    "map body_status (results (getJob both_done ''acct'')) = [Some Success, Some Error]"
    "successCount (getJob both_done ''acct'') = 1" "failCount (getJob both_done ''acct'') = 1"
    "length (results (getJob both_done ''acct'')) = 2" "length (parseUserData two_lines) = 2"
    by code_simp+
  have d: "map_option l_at (loops (started 0) 0) = Some AwaitFetch" "l_accountId ?L = ''acct''"
    "results (getJob (started 0) ''acct'') = []"
    "successCount (getJob (started 0) ''acct'') = 0" "failCount (getJob (started 0) ''acct'') = 0"
    by code_simp+
  have n: "''acct'' \<noteq> []" by simp
  have t1: "\<exists>k L. loops both_done k = Some L \<and> l_accountId L = ''acct''
         \<and> latest (loops both_done) k ''acct'' \<and> l_at L = Returned
         \<and> l_users L = parseUserData (userEmails (l_settings L))
         \<and> results (getJob both_done ''acct'') = l_newResults L
         \<and> length (results (getJob both_done ''acct''))
             = length (parseUserData (userEmails (l_settings L)))"
    using c(1) counters_match_results[of "[Click ''acct'' (SetUserEmails two_lines),
        Click ''acct'' (SetDelayInSeconds 0), Click ''acct'' ClickStartImport,
        FetchDone 0 invited, FetchDone 0 Threw]" "''acct''"]
    unfolding both_done_after[symmetric] by blast
  have h: "loops (started 0) 0 = Some ?L \<and> l_at ?L = AwaitFetch \<and> l_accountId ?L = ''acct''"
    using d(1,2) by auto
  have "\<exists>j1 rest. l_i ?L < length (l_users ?L)
         \<and> published (step (FetchDone 0 invited) (started 0))
             = published (started 0) @ (''acct'', j1) # rest
         \<and> results j1 = results (getJob (started 0) ''acct'')
                          @ [result_of (request_for ?L (l_i ?L)) invited]
         \<and> (successCount j1 = successCount (getJob (started 0) ''acct'') + 1
              \<and> failCount j1 = failCount (getJob (started 0) ''acct'')
            \<or> successCount j1 = successCount (getJob (started 0) ''acct'')
              \<and> failCount j1 = failCount (getJob (started 0) ''acct'') + 1)"
    using n h counters_match_results[of "[Click ''acct'' (SetUserEmails two_lines),
        Click ''acct'' (SetDelayInSeconds 0), Click ''acct'' ClickStartImport]" "''acct''"]
    unfolding started_def[symmetric] by blast
  then have t2: "\<exists>j1 rest. published (step (FetchDone 0 invited) (started 0))
                       = published (started 0) @ (''acct'', j1) # rest
         \<and> length (results j1) = 1
         \<and> (successCount j1 = 1 \<and> failCount j1 = 0 \<or> successCount j1 = 0 \<and> failCount j1 = 1)"
    unfolding d(3,4,5) by auto
  show ?thesis
    by (intro conjI) (fact c(1) c(2) c(3) c(4) c(5) c(6) t1 d(1) t2)+
qed

text \<open>
  For the account with the empty id the sum falls short: the endpoint's answer has no
  status, and the settled request leaves one result and both counters at zero.
\<close>

lemma empty_account_id_uncounted:
  "results (getJob (after [Click [] (SetUserEmails two_lines), Click [] ClickStartImport,
                           FetchDone 0 invited]) [])
     = [MessageBody ''User data and accountId are required'']
   \<and> successCount (getJob (after [Click [] (SetUserEmails two_lines), Click [] ClickStartImport,
                           FetchDone 0 invited]) []) = 0
   \<and> failCount (getJob (after [Click [] (SetUserEmails two_lines), Click [] ClickStartImport,
                           FetchDone 0 invited]) []) = 0"
  by code_simp

section \<open>Progress\<close>

lemma getJob_upd_other [simp]:
  "getJob (st\<lparr> loops := x \<rparr>) = getJob st" "getJob (st\<lparr> nextLoop := n \<rparr>) = getJob st"
  "getJob (st\<lparr> requests := q \<rparr>) = getJob st" "getJob (st\<lparr> intervals := v \<rparr>) = getJob st"
  by (simp_all add: getJob_def fun_eq_iff)

lemma progress_after_loop: "progress (getJob (after_loop k L st) b) = progress (getJob st b)"
  by (simp add: after_loop_def Let_def split: option.splits)

lemma progress_after_pause: "progress (getJob (after_pause k L st) b) = progress (getJob st b)"
  by (simp add: after_pause_def progress_after_loop split: option.splits)

lemma progress_loop_head: "progress (getJob (loop_head k L st) b) = progress (getJob st b)"
  by (simp add: loop_head_def progress_after_loop progress_after_pause split: option.splits)

lemma progress_poll_wake: "progress (getJob (poll_wake k L st) b) = progress (getJob st b)"
  by (simp add: poll_wake_def progress_after_pause split: option.splits)

lemma progress_countdown_tick:
  "progress (getJob (countdown_tick k L st) b) = progress (getJob st b)"
  by (auto simp: countdown_tick_def Let_def getJob_def split: option.splits)

lemma progress_elapsed_tick: "progress (getJob (elapsed_tick t st) b) = progress (getJob st b)"
  by (auto simp: elapsed_tick_def modifyJob_def getJob_def split: option.splits)

lemma progress_fetch_done:
  assumes "Inv st" "loops st k = Some L" "l_at L = AwaitFetch"
  shows "progress (getJob (fetch_done k L out st) b) =
     (if b = l_accountId L then real (l_i L + 1) / real (length (l_users L)) * 100
      else progress (getJob st b))"
    and "progress (getJob st (l_accountId L)) \<le> real (l_i L + 1) / real (length (l_users L)) * 100"
proof -
  let ?a = "l_accountId L"
  obtain r j where x: "jobRefs st ?a = Some r" "importJobs st ?a = Some j" "tracks j L" "good j"
    "from_input L"
    using Inv_active[OF assms(1,2)] assms(3) by auto
  have i: "l_i L < length (l_users L)" using x(3) by (simp add: tracks_def)
  then have ua: "user_at L = Some (l_users L ! l_i L)" by (simp add: user_at_def)
  show "progress (getJob (fetch_done k L out st) b) =
     (if b = l_accountId L then real (l_i L + 1) / real (length (l_users L)) * 100
      else progress (getJob st b))"
    using ua x(2)
    by (simp add: fetch_done_def modifyJob_def Let_def progress_loop_head record_result_def)
  have pe: "progress (getJob st ?a) = real (l_i L) / real (length (l_users L)) * 100"
    using x(2,3) by (simp add: getJob_def tracks_def)
  have le: "real (l_i L) / real (length (l_users L)) \<le> real (l_i L + 1) / real (length (l_users L))"
    by (rule divide_right_mono) simp_all
  show "progress (getJob st ?a) \<le> real (l_i L + 1) / real (length (l_users L)) * 100"
    unfolding pe by (rule mult_right_mono[OF le]) simp
qed

lemma progress_start_other:
  "b \<noteq> a \<Longrightarrow> progress (getJob (startImportJob a users st) b) = progress (getJob st b)"
  by (simp add: startImportJob_def Let_def progress_loop_head)

lemma progress_start_same:
  "users \<noteq> [] \<Longrightarrow> progress (getJob (startImportJob a users st) a) = 0"
  by (simp add: startImportJob_def Let_def progress_loop_head)

lemma progress_click:
  "progress (getJob (click a' act st) b) = progress (getJob st b)
   \<or> (a' = b \<and> (act = ClickStartImport \<or> act = ClickClearAll))"
proof (cases act)
  case ClickStartImport
  then show ?thesis
    by (cases "a' = b")
       (simp_all add: click_def Let_def handleStartImport_def progress_start_other)
next
  case ClickClearAll
  then show ?thesis
    by (cases "a' = b")
       (simp_all add: click_def Let_def handleClearAll_def clearImportJob_def)
qed (simp_all add: click_def Let_def updateJobSettings_def pause_job resume_job
      stopImportJob_def split: option.splits)

lemma progress_step:
  assumes "Inv st"
  shows "progress (getJob st b) \<le> progress (getJob (step e st) b)
     \<or> e = Click b ClickStartImport \<or> e = Click b ClickClearAll"
proof (cases e)
  case (Click a' act)
  then show ?thesis using progress_click[of a' act st b] by auto
next
  case (ElapsedTick t)
  then show ?thesis by (simp add: progress_elapsed_tick)
next
  case (PollWake k)
  then show ?thesis by (simp add: resume_at_def progress_poll_wake split: option.splits)
next
  case (CountdownTick k)
  then show ?thesis by (simp add: resume_at_def progress_countdown_tick split: option.splits)
next
  case (FetchDone k out)
  show ?thesis
  proof (cases "loops st k")
    case None
    then show ?thesis using FetchDone by (simp add: resume_at_def)
  next
    case (Some L)
    show ?thesis
    proof (cases "l_at L = AwaitFetch")
      case True
      then show ?thesis
        using FetchDone Some progress_fetch_done(1)[OF assms Some True, of out b]
          progress_fetch_done(2)[OF assms Some True]
        by (simp add: resume_at_def)
    next
      case False
      then show ?thesis using FetchDone Some by (simp add: resume_at_def)
    qed
  qed
qed

text \<open>
  C4. In every reachable state the progress of a job lies between 0 and 100, and it is
  exactly 100 when the status is completed. No event lowers it except a start or a clear
  for that account; a start that takes effect sets it to 0, and a settled request for
  record \<open>i\<close> of \<open>n\<close> sets it to \<open>(i + 1) / n * 100\<close>.
\<close>

theorem progress_single_run:
  "0 \<le> progress (getJob (after evs) a) \<and> progress (getJob (after evs) a) \<le> 100
   \<and> (status (getJob (after evs) a) = Completed \<longrightarrow> progress (getJob (after evs) a) = 100)
   \<and> (progress (getJob (step e (after evs)) a) < progress (getJob (after evs) a) \<longrightarrow>
        e = Click a ClickStartImport \<or> e = Click a ClickClearAll)
   \<and> (nextLoop (step (Click a ClickStartImport) (after evs)) \<noteq> nextLoop (after evs) \<longrightarrow>
        progress (getJob (step (Click a ClickStartImport) (after evs)) a) = 0)
   \<and> (\<forall>k L out. loops (after evs) k = Some L \<and> l_at L = AwaitFetch \<and> l_accountId L = a \<longrightarrow>
        progress (getJob (step (FetchDone k out) (after evs)) a)
          = real (l_i L + 1) / real (length (l_users L)) * 100)"
proof -
  let ?st = "after evs"
  note I = Inv_after[of evs]
  have g: "good (getJob ?st a)" by (rule Inv_good_getJob[OF I])
  have 1: "0 \<le> progress (getJob ?st a) \<and> progress (getJob ?st a) \<le> 100
     \<and> (status (getJob ?st a) = Completed \<longrightarrow> progress (getJob ?st a) = 100)"
    using g by (simp add: good_def)
  have 2: "progress (getJob (step e ?st) a) < progress (getJob ?st a) \<longrightarrow>
        e = Click a ClickStartImport \<or> e = Click a ClickClearAll"
    using progress_step[OF I, of a e] by auto
  have 3: "nextLoop (step (Click a ClickStartImport) ?st) \<noteq> nextLoop ?st \<longrightarrow>
        progress (getJob (step (Click a ClickStartImport) ?st) a) = 0"
    by (auto simp: click_def Let_def handleStartImport_def progress_start_same)
  have 4: "\<forall>k L out. loops ?st k = Some L \<and> l_at L = AwaitFetch \<and> l_accountId L = a \<longrightarrow>
        progress (getJob (step (FetchDone k out) ?st) a)
          = real (l_i L + 1) / real (length (l_users L)) * 100"
    using progress_fetch_done(1)[OF I] by (auto simp: resume_at_def)
  show ?thesis using 1 2 3 4 by blast
qed


lemma started_after:
  "started d = after [Click ''acct'' (SetUserEmails two_lines), Click ''acct'' (SetDelayInSeconds d),
        Click ''acct'' ClickStartImport]"
  by (simp add: started_def)

theorem progress_single_run_witness:
  "status (getJob both_done ''acct'') = Completed
   \<and> progress (getJob both_done ''acct'') = 100
   \<and> progress (getJob (step (Click ''acct'' ClickClearAll) both_done) ''acct'')
       < progress (getJob both_done ''acct'')
   \<and> nextLoop (step (Click ''acct'' ClickStartImport) both_done) \<noteq> nextLoop both_done
   \<and> progress (getJob (step (Click ''acct'' ClickStartImport) both_done) ''acct'') = 0
   \<and> map_option l_at (loops (started 0) 0) = Some AwaitFetch
   \<and> progress (getJob (step (FetchDone 0 Threw) (started 0)) ''acct'') = 50"
proof -
  have c: "status (getJob both_done ''acct'') = Completed"
    "progress (getJob (step (Click ''acct'' ClickClearAll) both_done) ''acct'')
       < progress (getJob both_done ''acct'')"
    "nextLoop (step (Click ''acct'' ClickStartImport) both_done) \<noteq> nextLoop both_done"
    "map_option l_at (loops (started 0) 0) = Some AwaitFetch"
    "progress (getJob (step (FetchDone 0 Threw) (started 0)) ''acct'') = 50"
    by code_simp+
  have "progress (getJob both_done ''acct'') = 100
     \<and> progress (getJob (step (Click ''acct'' ClickStartImport) both_done) ''acct'') = 0"
    using c progress_single_run[of "[Click ''acct'' (SetUserEmails two_lines),
        Click ''acct'' (SetDelayInSeconds 0), Click ''acct'' ClickStartImport,
        FetchDone 0 invited, FetchDone 0 Threw]" "''acct''"
        "Click ''acct'' ClickClearAll"]
    unfolding both_done_after[symmetric] by blast
  then show ?thesis using c by simp
qed

section \<open>Failures of one record\<close>

lemma after_loop_effect:
  assumes "jobRefs st (l_accountId L) = Some r"
  shows "loops (after_loop k L st) = (loops st)(k \<mapsto> L\<lparr> l_at := Returned \<rparr>)"
    and "getJob (after_loop k L st) b =
      (if b = l_accountId L
       then (getJob st b)\<lparr> status := (if ref_isStopped r then Stopped else Completed) \<rparr>
       else getJob st b)"
    and "requests (after_loop k L st) = requests st"
    and "jobRefs (after_loop k L st) = jobRefs st"
    and "crashed (after_loop k L st) = crashed st"
  using assms by (simp_all add: after_loop_def Let_def spread_status)

lemma after_pause_effect:
  assumes "jobRefs st (l_accountId L) = Some r" "l_i L < length (l_users L)"
  shows "after_pause k L st =
    (if ref_isStopped r then after_loop k L (toast ''Job Ended'' st)
     else if 0 < l_i L \<and> 0 < delayInSeconds (l_settings L) then
       suspend k L AwaitCountdown
         (updateJobState (l_accountId L)
            (no_updates\<lparr> p_nextUserEmail := Some (Some (email (l_users L ! l_i L))),
                         p_countdown := Some (delayInSeconds (l_settings L)) \<rparr>) st)
     else issue_fetch k L (l_users L ! l_i L) st)"
  using assms by (simp add: after_pause_def user_at_def)

lemma loop_head_effect:
  assumes "jobRefs st (l_accountId L) = Some r"
  shows "loop_head k L st =
    (if l_i L < length (l_users L) then
       (if ref_isStopped r then after_loop k L (toast ''Job Ended'' st)
        else if ref_isPaused r then suspend k L AwaitPoll st
        else after_pause k L st)
     else after_loop k L st)"
  using assms by (simp add: loop_head_def)

lemma loop_head_outcome:
  assumes r: "jobRefs st (l_accountId L) = Some r"
  shows "loops (loop_head k L st) = (loops st)(k \<mapsto> L\<lparr> l_at := next_suspension r L \<rparr>)"
    and "results (getJob (loop_head k L st) b) = results (getJob st b)"
    and "status (getJob (loop_head k L st) (l_accountId L))
          = (if next_suspension r L = Returned
             then (if ref_isStopped r then Stopped else Completed)
             else status (getJob st (l_accountId L)))"
    and "requests (loop_head k L st)
          = (if next_suspension r L = AwaitFetch
             then requests st @ [\<lparr> q_user = l_users L ! l_i L, q_accountId = l_accountId L,
                                    q_sendInvites = sendInvites (l_settings L) \<rparr>]
             else requests st)"
    and "crashed (loop_head k L st) = crashed st"
    and "jobRefs (loop_head k L st) = jobRefs st"
proof -
  have rt: "jobRefs (toast ''Job Ended'' st) (l_accountId L) = Some r" using r by simp
  note al = after_loop_effect[OF r, of k] after_loop_effect[OF rt, of k]
  have "loops (loop_head k L st) = (loops st)(k \<mapsto> L\<lparr> l_at := next_suspension r L \<rparr>)
    \<and> results (getJob (loop_head k L st) b) = results (getJob st b)
    \<and> status (getJob (loop_head k L st) (l_accountId L))
          = (if next_suspension r L = Returned
             then (if ref_isStopped r then Stopped else Completed)
             else status (getJob st (l_accountId L)))
    \<and> requests (loop_head k L st)
          = (if next_suspension r L = AwaitFetch
             then requests st @ [\<lparr> q_user = l_users L ! l_i L, q_accountId = l_accountId L,
                                    q_sendInvites = sendInvites (l_settings L) \<rparr>]
             else requests st)
    \<and> crashed (loop_head k L st) = crashed st
    \<and> jobRefs (loop_head k L st) = jobRefs st"
  proof (cases "l_i L < length (l_users L)")
    case True
    then show ?thesis
      using r al
      by (cases "ref_isStopped r"; cases "ref_isPaused r";
          cases "0 < l_i L \<and> 0 < delayInSeconds (l_settings L)")
         (simp_all add: loop_head_effect[OF r] after_pause_effect[OF r True]
            next_suspension_def)
  next
    case False
    then show ?thesis using r al by (simp add: loop_head_effect[OF r] next_suspension_def)
  qed
  then show "loops (loop_head k L st) = (loops st)(k \<mapsto> L\<lparr> l_at := next_suspension r L \<rparr>)"
    and "results (getJob (loop_head k L st) b) = results (getJob st b)"
    and "status (getJob (loop_head k L st) (l_accountId L))
          = (if next_suspension r L = Returned
             then (if ref_isStopped r then Stopped else Completed)
             else status (getJob st (l_accountId L)))"
    and "requests (loop_head k L st)
          = (if next_suspension r L = AwaitFetch
             then requests st @ [\<lparr> q_user = l_users L ! l_i L, q_accountId = l_accountId L,
                                    q_sendInvites = sendInvites (l_settings L) \<rparr>]
             else requests st)"
    and "crashed (loop_head k L st) = crashed st"
    and "jobRefs (loop_head k L st) = jobRefs st"
    by blast+
qed

lemma fetch_step:
  assumes "Inv st" "loops st k = Some L" "l_at L = AwaitFetch"
  obtains r j where "jobRefs st (l_accountId L) = Some r" "importJobs st (l_accountId L) = Some j"
    "tracks j L" "user_at L = Some (l_users L ! l_i L)"
    "step (FetchDone k out) st =
       loop_head k (L\<lparr> l_newResults := l_newResults L @ [result_of (request_for L (l_i L)) out],
                       l_i := l_i L + 1 \<rparr>)
         (publish (l_accountId L)
            (record_result (L\<lparr> l_newResults := l_newResults L @ [result_of (request_for L (l_i L)) out] \<rparr>)
               (result_of (request_for L (l_i L)) out) j) st)"
proof -
  obtain r j where x: "jobRefs st (l_accountId L) = Some r" "importJobs st (l_accountId L) = Some j"
    "tracks j L" "good j" "from_input L"
    using Inv_active[OF assms(1,2)] assms(3) by auto
  have i: "l_i L < length (l_users L)" using x(3) by (simp add: tracks_def)
  then have ua: "user_at L = Some (l_users L ! l_i L)" by (simp add: user_at_def)
  have "step (FetchDone k out) st =
       loop_head k (L\<lparr> l_newResults := l_newResults L @ [result_of (request_for L (l_i L)) out],
                       l_i := l_i L + 1 \<rparr>)
         (publish (l_accountId L)
            (record_result (L\<lparr> l_newResults := l_newResults L @ [result_of (request_for L (l_i L)) out] \<rparr>)
               (result_of (request_for L (l_i L)) out) j) st)"
    using assms(2,3) ua x(2)
    by (simp add: resume_at_def fetch_done_def modifyJob_def Let_def request_for_def)
  then show ?thesis using that x ua by blast
qed

lemma fetch_step_outcome:
  assumes "Inv st" "loops st k = Some L" "l_at L = AwaitFetch"
  shows "\<exists>r. jobRefs st (l_accountId L) = Some r
     \<and> user_at L = Some (l_users L ! l_i L)
     \<and> loops (step (FetchDone k out) st) k =
          Some (L\<lparr> l_newResults := l_newResults L @ [result_of (request_for L (l_i L)) out],
                   l_i := l_i L + 1,
                   l_at := next_suspension r (L\<lparr> l_i := l_i L + 1 \<rparr>) \<rparr>)
     \<and> results (getJob (step (FetchDone k out) st) (l_accountId L))
          = results (getJob st (l_accountId L)) @ [result_of (request_for L (l_i L)) out]
     \<and> status (getJob (step (FetchDone k out) st) (l_accountId L))
          = (if next_suspension r (L\<lparr> l_i := l_i L + 1 \<rparr>) = Returned
             then (if ref_isStopped r then Stopped else Completed)
             else status (getJob st (l_accountId L)))
     \<and> requests (step (FetchDone k out) st)
          = (if next_suspension r (L\<lparr> l_i := l_i L + 1 \<rparr>) = AwaitFetch
             then requests st @ [request_for L (l_i L + 1)]
             else requests st)
     \<and> length (results (getJob st (l_accountId L))) = l_i L
     \<and> l_i L < length (l_users L)"
proof -
  let ?a = "l_accountId L"
  let ?res = "result_of (request_for L (l_i L)) out"
  let ?L2 = "L\<lparr> l_newResults := l_newResults L @ [?res], l_i := l_i L + 1 \<rparr>"
  let ?j1 = "record_result (L\<lparr> l_newResults := l_newResults L @ [?res] \<rparr>) ?res"
  obtain r j where x: "jobRefs st ?a = Some r" "importJobs st ?a = Some j" "tracks j L"
    "user_at L = Some (l_users L ! l_i L)"
    "step (FetchDone k out) st = loop_head k ?L2 (publish ?a (?j1 j) st)"
    using fetch_step[OF assms, of out] by blast
  have r1: "jobRefs (publish ?a (?j1 j) st) (l_accountId ?L2) = Some r" using x(1) by simp
  note O = loop_head_outcome[OF r1, of k]
  have ns: "next_suspension r ?L2 = next_suspension r (L\<lparr> l_i := l_i L + 1 \<rparr>)"
    by (simp add: next_suspension_def)
  have gj: "getJob st ?a = j" using x(2) by (simp add: getJob_def)
  show ?thesis
    using x(1,3,4) O(1) O(2)[of ?a] O(3) O(4) gj
    unfolding x(5) ns
    by (simp add: record_result_def tracks_def request_for_def)
qed

lemma import_user_result:
  assumes "q_accountId req \<noteq> []"
  shows "fst (import_user accounts clerk req) \<in> {200, 400, 404, 500}
     \<and> (fst (import_user accounts clerk req) = 200 \<longleftrightarrow>
          (\<exists>key d. getSecretKey accounts (q_accountId req) = Some key
             \<and> clerk (clerk_call key req) = Replied True d))
     \<and> (\<exists>res. snd (import_user accounts clerk req) = ResultBody res
          \<and> r_email res = email (q_user req) \<and> r_message res \<noteq> []
          \<and> (fst (import_user accounts clerk req) = 200 \<longrightarrow> r_status res = Success)
          \<and> (fst (import_user accounts clerk req) \<noteq> 200 \<longrightarrow> r_status res = Error))"
  using assms
  by (auto simp: import_user_def Let_def or_string_def
      split: option.splits clerk_reply.splits if_splits)

lemma counters_after_loop:
  "successCount (getJob (after_loop k L st) b) = successCount (getJob st b)"
  "failCount (getJob (after_loop k L st) b) = failCount (getJob st b)"
  by (simp_all add: after_loop_def Let_def split: option.splits)

lemma counters_after_pause:
  "successCount (getJob (after_pause k L st) b) = successCount (getJob st b)"
  "failCount (getJob (after_pause k L st) b) = failCount (getJob st b)"
  by (simp_all add: after_pause_def counters_after_loop split: option.splits)

lemma counters_loop_head:
  "successCount (getJob (loop_head k L st) b) = successCount (getJob st b)"
  "failCount (getJob (loop_head k L st) b) = failCount (getJob st b)"
  by (simp_all add: loop_head_def counters_after_loop counters_after_pause split: option.splits)

lemma fetch_step_counters:
  assumes "Inv st" "loops st k = Some L" "l_at L = AwaitFetch"
  shows "successCount (getJob (step (FetchDone k out) st) (l_accountId L))
      = successCount (getJob st (l_accountId L))
        + (if body_status (result_of (request_for L (l_i L)) out) = Some Success then 1 else 0)"
    and "failCount (getJob (step (FetchDone k out) st) (l_accountId L))
      = failCount (getJob st (l_accountId L))
        + (if body_status (result_of (request_for L (l_i L)) out) = Some Error then 1 else 0)"
proof -
  let ?a = "l_accountId L"
  let ?res = "result_of (request_for L (l_i L)) out"
  let ?L2 = "L\<lparr> l_newResults := l_newResults L @ [?res], l_i := l_i L + 1 \<rparr>"
  let ?j1 = "record_result (L\<lparr> l_newResults := l_newResults L @ [?res] \<rparr>) ?res"
  obtain r j where x: "jobRefs st ?a = Some r" "importJobs st ?a = Some j" "tracks j L"
    "user_at L = Some (l_users L ! l_i L)"
    "step (FetchDone k out) st = loop_head k ?L2 (publish ?a (?j1 j) st)"
    using fetch_step[OF assms, of out] by blast
  have gj: "getJob st ?a = j" using x(2) by (simp add: getJob_def)
  show "successCount (getJob (step (FetchDone k out) st) ?a)
      = successCount (getJob st ?a) + (if body_status ?res = Some Success then 1 else 0)"
    and "failCount (getJob (step (FetchDone k out) st) ?a)
      = failCount (getJob st ?a) + (if body_status ?res = Some Error then 1 else 0)"
    unfolding x(5) gj by (simp_all add: counters_loop_head record_result_def)
qed

lemma failure_result:
  assumes "q_accountId req \<noteq> []"
    and "out = Threw
       \<or> (\<exists>accounts clerk. out = Served accounts clerk
             \<and> fst (import_user accounts clerk req) \<noteq> 200)"
  shows "\<exists>res. result_of req out = ResultBody res \<and> r_status res = Error
     \<and> r_email res = email (q_user req) \<and> r_message res \<noteq> []"
proof (cases out)
  case Threw
  then show ?thesis by (simp add: result_of_def)
next
  case (Served accounts clerk)
  with assms(2) have "fst (import_user accounts clerk req) \<noteq> 200" by simp
  with import_user_result[OF assms(1), of accounts clerk] Served show ?thesis
    by (auto simp: result_of_def)
qed

text \<open>
  C5. No reachable state has crashed. When the request of a suspended invocation settles,
  answered by the endpoint or with a thrown error, the outcome becomes one stored result:
  it is appended to the invocation's list and to the job's results, the index advances by
  one, the state has not crashed, and the invocation goes on as the loop head decides: it
  stays alive unless that was the last record or a stop has been requested. For an account
  with a non-empty id, when \<^verbatim>\<open>fetch\<close> threw or the endpoint answered with a status other
  than 200, that result is a result object with status error, the email of the record and
  a non-empty message, and it moves the failure counter by one and leaves the success
  counter. What is stored for an answered request is the body the endpoint sent for this
  very request; for a thrown error it is the error result with the message "Failed to
  connect to backend.". The endpoint, for a request with a non-empty account id, answers
  200, 400, 404 or 500, always with a result object for the record's email and a non-empty
  message, a success with 200 and an error otherwise; and it answers 200 exactly when the
  account is stored and the identity provider's reply to the call made for this request
  is ok.
\<close>

theorem remote_failure_recorded:
  "\<not> crashed (after evs)
   \<and> (\<forall>k L out. loops (after evs) k = Some L \<and> l_at L = AwaitFetch \<longrightarrow>
        (\<exists>r L'. jobRefs (after evs) (l_accountId L) = Some r \<and> l_i L < length (l_users L)
           \<and> loops (step (FetchDone k out) (after evs)) k = Some L'
           \<and> l_newResults L' = l_newResults L @ [result_of (request_for L (l_i L)) out]
           \<and> l_i L' = l_i L + 1
           \<and> l_at L' = next_suspension r (L\<lparr> l_i := l_i L + 1 \<rparr>)
           \<and> (l_i L + 1 < length (l_users L) \<and> \<not> ref_isStopped r \<longrightarrow> l_at L' \<noteq> Returned)
           \<and> results (getJob (step (FetchDone k out) (after evs)) (l_accountId L))
               = results (getJob (after evs) (l_accountId L))
                 @ [result_of (request_for L (l_i L)) out]
           \<and> \<not> crashed (step (FetchDone k out) (after evs))
           \<and> (l_accountId L \<noteq> []
                \<and> (out = Threw
                     \<or> (\<exists>accounts clerk. out = Served accounts clerk
                           \<and> fst (import_user accounts clerk (request_for L (l_i L))) \<noteq> 200))
               \<longrightarrow>
                (\<exists>res. result_of (request_for L (l_i L)) out = ResultBody res
                   \<and> r_status res = Error \<and> r_email res = email (l_users L ! l_i L)
                   \<and> r_message res \<noteq> []
                   \<and> failCount (getJob (step (FetchDone k out) (after evs)) (l_accountId L))
                       = failCount (getJob (after evs) (l_accountId L)) + 1
                   \<and> successCount (getJob (step (FetchDone k out) (after evs)) (l_accountId L))
                       = successCount (getJob (after evs) (l_accountId L))))))
   \<and> result_of req (Served accounts clerk) = snd (import_user accounts clerk req)
   \<and> result_of req Threw
        = ResultBody \<lparr> r_email = email (q_user req), r_status = Error,
                       r_message = ''Failed to connect to backend.'', r_userId = None \<rparr>
   \<and> (q_accountId req \<noteq> [] \<longrightarrow>
        fst (import_user accounts clerk req) \<in> {200, 400, 404, 500}
        \<and> (fst (import_user accounts clerk req) = 200 \<longleftrightarrow>
             (\<exists>key d. getSecretKey accounts (q_accountId req) = Some key
                \<and> clerk (clerk_call key req) = Replied True d))
        \<and> (\<exists>res. snd (import_user accounts clerk req) = ResultBody res
             \<and> r_email res = email (q_user req) \<and> r_message res \<noteq> []
             \<and> (fst (import_user accounts clerk req) = 200 \<longrightarrow> r_status res = Success)
             \<and> (fst (import_user accounts clerk req) \<noteq> 200 \<longrightarrow> r_status res = Error)))"
proof -
  let ?st = "after evs"
  note I = Inv_after[of evs]
  have 1: "\<not> crashed ?st" by (rule Inv_not_crashed[OF I])
  have 2: "\<forall>k L out. loops ?st k = Some L \<and> l_at L = AwaitFetch \<longrightarrow>
        (\<exists>r L'. jobRefs ?st (l_accountId L) = Some r \<and> l_i L < length (l_users L)
           \<and> loops (step (FetchDone k out) ?st) k = Some L'
           \<and> l_newResults L' = l_newResults L @ [result_of (request_for L (l_i L)) out]
           \<and> l_i L' = l_i L + 1
           \<and> l_at L' = next_suspension r (L\<lparr> l_i := l_i L + 1 \<rparr>)
           \<and> (l_i L + 1 < length (l_users L) \<and> \<not> ref_isStopped r \<longrightarrow> l_at L' \<noteq> Returned)
           \<and> results (getJob (step (FetchDone k out) ?st) (l_accountId L))
               = results (getJob ?st (l_accountId L)) @ [result_of (request_for L (l_i L)) out]
           \<and> \<not> crashed (step (FetchDone k out) ?st)
           \<and> (l_accountId L \<noteq> []
                \<and> (out = Threw
                     \<or> (\<exists>accounts clerk. out = Served accounts clerk
                           \<and> fst (import_user accounts clerk (request_for L (l_i L))) \<noteq> 200))
               \<longrightarrow>
                (\<exists>res. result_of (request_for L (l_i L)) out = ResultBody res
                   \<and> r_status res = Error \<and> r_email res = email (l_users L ! l_i L)
                   \<and> r_message res \<noteq> []
                   \<and> failCount (getJob (step (FetchDone k out) ?st) (l_accountId L))
                       = failCount (getJob ?st (l_accountId L)) + 1
                   \<and> successCount (getJob (step (FetchDone k out) ?st) (l_accountId L))
                       = successCount (getJob ?st (l_accountId L)))))"
  proof (intro allI impI)
    fix k L out assume h: "loops ?st k = Some L \<and> l_at L = AwaitFetch"
    let ?req = "request_for L (l_i L)"
    let ?s' = "step (FetchDone k out) ?st"
    have nc: "\<not> crashed ?s'"
      using Inv_not_crashed[OF Inv_step[OF I]] by blast
    obtain r where x: "jobRefs ?st (l_accountId L) = Some r"
      "loops ?s' k =
          Some (L\<lparr> l_newResults := l_newResults L @ [result_of ?req out],
                   l_i := l_i L + 1,
                   l_at := next_suspension r (L\<lparr> l_i := l_i L + 1 \<rparr>) \<rparr>)"
      "results (getJob ?s' (l_accountId L))
          = results (getJob ?st (l_accountId L)) @ [result_of ?req out]"
      "l_i L < length (l_users L)"
      using fetch_step_outcome[OF I, of k L out] h by blast
    have ns: "l_i L + 1 < length (l_users L) \<and> \<not> ref_isStopped r \<longrightarrow>
        next_suspension r (L\<lparr> l_i := l_i L + 1 \<rparr>) \<noteq> Returned"
      by (simp add: next_suspension_def)
    have f: "\<exists>res. result_of ?req out = ResultBody res
                   \<and> r_status res = Error \<and> r_email res = email (l_users L ! l_i L)
                   \<and> r_message res \<noteq> []
                   \<and> failCount (getJob ?s' (l_accountId L))
                       = failCount (getJob ?st (l_accountId L)) + 1
                   \<and> successCount (getJob ?s' (l_accountId L))
                       = successCount (getJob ?st (l_accountId L))"
      if fl: "l_accountId L \<noteq> []
          \<and> (out = Threw
               \<or> (\<exists>accounts clerk. out = Served accounts clerk
                     \<and> fst (import_user accounts clerk ?req) \<noteq> 200))"
    proof -
      have q: "q_accountId ?req \<noteq> []" using fl by (simp add: request_for_def)
      obtain res where res: "result_of ?req out = ResultBody res" "r_status res = Error"
        "r_email res = email (q_user ?req)" "r_message res \<noteq> []"
        using failure_result[OF q, of out] fl by blast
      have b: "body_status (result_of ?req out) = Some Error"
        using res by (simp add: body_status_def)
      show ?thesis
        using res b fetch_step_counters[OF I, of k L out] h
        by (simp add: request_for_def)
    qed
    show "\<exists>r L'. jobRefs ?st (l_accountId L) = Some r \<and> l_i L < length (l_users L)
           \<and> loops ?s' k = Some L'
           \<and> l_newResults L' = l_newResults L @ [result_of ?req out]
           \<and> l_i L' = l_i L + 1
           \<and> l_at L' = next_suspension r (L\<lparr> l_i := l_i L + 1 \<rparr>)
           \<and> (l_i L + 1 < length (l_users L) \<and> \<not> ref_isStopped r \<longrightarrow> l_at L' \<noteq> Returned)
           \<and> results (getJob ?s' (l_accountId L))
               = results (getJob ?st (l_accountId L)) @ [result_of ?req out]
           \<and> \<not> crashed ?s'
           \<and> (l_accountId L \<noteq> []
                \<and> (out = Threw
                     \<or> (\<exists>accounts clerk. out = Served accounts clerk
                           \<and> fst (import_user accounts clerk ?req) \<noteq> 200))
               \<longrightarrow>
                (\<exists>res. result_of ?req out = ResultBody res
                   \<and> r_status res = Error \<and> r_email res = email (l_users L ! l_i L)
                   \<and> r_message res \<noteq> []
                   \<and> failCount (getJob ?s' (l_accountId L))
                       = failCount (getJob ?st (l_accountId L)) + 1
                   \<and> successCount (getJob ?s' (l_accountId L))
                       = successCount (getJob ?st (l_accountId L))))"
      apply (rule exI[of _ r])
      apply (rule exI[of _ "L\<lparr> l_newResults := l_newResults L @ [result_of ?req out],
                   l_i := l_i L + 1,
                   l_at := next_suspension r (L\<lparr> l_i := l_i L + 1 \<rparr>) \<rparr>"])
      using x nc ns f by simp
  qed
  have 3: "result_of req (Served accounts clerk) = snd (import_user accounts clerk req)"
    "result_of req Threw
        = ResultBody \<lparr> r_email = email (q_user req), r_status = Error,
                       r_message = ''Failed to connect to backend.'', r_userId = None \<rparr>"
    by (simp_all add: result_of_def)
  show ?thesis using 1 2 3 import_user_result[of req accounts clerk] by blast
qed

theorem remote_failure_recorded_witness:
  "map_option l_at (loops (started 0) 0) = Some AwaitFetch
   \<and> l_accountId (the (loops (started 0) 0)) \<noteq> []
   \<and> fst (import_user one_account rejecting (request_for (the (loops (started 0) 0)) 0)) = 400
   \<and> map body_status (results (getJob (step (FetchDone 0 (Served one_account rejecting))
                                         (started 0)) ''acct'')) = [Some Error]
   \<and> failCount (getJob (step (FetchDone 0 (Served one_account rejecting)) (started 0)) ''acct'')
       = failCount (getJob (started 0) ''acct'') + 1
   \<and> successCount (getJob (step (FetchDone 0 (Served one_account rejecting)) (started 0)) ''acct'')
       = successCount (getJob (started 0) ''acct'')
   \<and> map_option l_at (loops (step (FetchDone 0 (Served one_account rejecting)) (started 0)) 0)
       = Some AwaitFetch
   \<and> map_option l_i (loops (step (FetchDone 0 (Served one_account rejecting)) (started 0)) 0)
       = Some 1
   \<and> length (requests (step (FetchDone 0 (Served one_account rejecting)) (started 0))) = 2
   \<and> \<not> crashed (step (FetchDone 0 (Served one_account rejecting)) (started 0))"
proof -
  let ?evs = "[Click ''acct'' (SetUserEmails two_lines),
        Click ''acct'' (SetDelayInSeconds 0), Click ''acct'' ClickStartImport]"
  let ?L = "the (loops (started 0) 0)"
  let ?out = "Served one_account rejecting"
  let ?s' = "step (FetchDone 0 ?out) (started 0)"
  have c: "map_option l_at (loops (started 0) 0) = Some AwaitFetch"
    "l_accountId ?L = ''acct''" "l_i ?L = 0"
    "fst (import_user one_account rejecting (request_for ?L 0)) = 400"
    "map body_status (results (getJob ?s' ''acct'')) = [Some Error]"
    "map_option l_at (loops ?s' 0) = Some AwaitFetch"
    "map_option l_i (loops ?s' 0) = Some 1"
    "length (requests ?s') = 2"
    by code_simp+
  then have l: "loops (after ?evs) 0 = Some ?L \<and> l_at ?L = AwaitFetch"
    by (auto simp: started_def)
  have h: "l_accountId ?L \<noteq> []
      \<and> (?out = Threw
           \<or> (\<exists>accounts clerk. ?out = Served accounts clerk
                 \<and> fst (import_user accounts clerk (request_for ?L (l_i ?L))) \<noteq> 200))"
    using c(2,3,4) by auto
  have "failCount (getJob ?s' (l_accountId ?L)) = failCount (getJob (started 0) (l_accountId ?L)) + 1
      \<and> successCount (getJob ?s' (l_accountId ?L)) = successCount (getJob (started 0) (l_accountId ?L))
      \<and> \<not> crashed ?s'"
    using remote_failure_recorded[of ?evs] l h unfolding started_def[symmetric] by blast
  then show ?thesis using c by simp
qed

section \<open>Stopping\<close>

lemma poll_step_stopped:
  assumes "Inv st" "loops st k = Some L" "l_at L = AwaitPoll"
    "jobRefs st (l_accountId L) = Some r" "ref_isStopped r"
  shows "step (PollWake k) st = after_loop k L (toast ''Job Ended'' st)"
proof -
  obtain r' j where x: "jobRefs st (l_accountId L) = Some r'" "importJobs st (l_accountId L) = Some j"
    "tracks j L" "good j" "from_input L"
    using Inv_active[OF assms(1,2)] assms(3) by auto
  have i: "l_i L < length (l_users L)" using x(3) by (simp add: tracks_def)
  show ?thesis
    using assms(2-5) after_pause_effect[OF assms(4) i, of k]
    by (simp add: resume_at_def poll_wake_def)
qed

lemma countdown_step:
  assumes "Inv st" "loops st k = Some L" "l_at L = AwaitCountdown"
  shows "step (CountdownTick k) st =
    (if countdown (getJob st (l_accountId L)) - 1 \<le> 0 then
       issue_fetch k L (l_users L ! l_i L)
         (updateJobState (l_accountId L)
            (no_updates\<lparr> p_nextUserEmail := Some None, p_countdown := Some 0 \<rparr>)
            (publish (l_accountId L)
               ((getJob st (l_accountId L))\<lparr> countdown := countdown (getJob st (l_accountId L)) - 1 \<rparr>)
               st))
     else publish (l_accountId L)
            ((getJob st (l_accountId L))\<lparr> countdown := countdown (getJob st (l_accountId L)) - 1 \<rparr>)
            st)"
proof -
  obtain r' j where x: "jobRefs st (l_accountId L) = Some r'" "importJobs st (l_accountId L) = Some j"
    "tracks j L" "good j" "from_input L"
    using Inv_active[OF assms(1,2)] assms(3) by auto
  have i: "l_i L < length (l_users L)" using x(3) by (simp add: tracks_def)
  then have ua: "user_at L = Some (l_users L ! l_i L)" by (simp add: user_at_def)
  have gj: "getJob st (l_accountId L) = j" using x(2) by (simp add: getJob_def)
  show ?thesis
    using assms(2,3) x(2) ua unfolding gj
    by (simp add: resume_at_def countdown_tick_def Let_def)
qed

lemma stop_effect:
  assumes "jobRefs st a = Some r"
  shows "jobRefs (stopImportJob a st) = (jobRefs st)(a \<mapsto> r\<lparr> ref_isStopped := True \<rparr>)"
    and "importJobs (stopImportJob a st) = importJobs st"
    and "loops (stopImportJob a st) = loops st"
    and "requests (stopImportJob a st) = requests st"
    and "published (stopImportJob a st) = published st"
  using assms by (simp_all add: stopImportJob_def)

subsection \<open>The stop flag stays until the invocation has read it\<close>

lemma refs_after_loop: "jobRefs (after_loop k L st) = jobRefs st"
  by (simp add: after_loop_def Let_def split: option.splits)

lemma refs_after_pause: "jobRefs (after_pause k L st) = jobRefs st"
  by (simp add: after_pause_def refs_after_loop split: option.splits)

lemma refs_loop_head: "jobRefs (loop_head k L st) = jobRefs st"
  by (simp add: loop_head_def refs_after_loop refs_after_pause split: option.splits)

lemma refs_poll_wake: "jobRefs (poll_wake k L st) = jobRefs st"
  by (simp add: poll_wake_def refs_after_pause split: option.splits)

lemma refs_countdown_tick: "jobRefs (countdown_tick k L st) = jobRefs st"
  by (simp add: countdown_tick_def Let_def split: option.splits)

lemma refs_modifyJob: "jobRefs (modifyJob a f st) = jobRefs st"
  by (simp add: modifyJob_def split: option.splits)

lemma refs_fetch_done: "jobRefs (fetch_done k L out st) = jobRefs st"
  by (simp add: fetch_done_def Let_def refs_loop_head refs_modifyJob split: option.splits)

lemma refs_elapsed_tick: "jobRefs (elapsed_tick t st) = jobRefs st"
  by (simp add: elapsed_tick_def refs_modifyJob split: option.splits)

lemma loops_modifyJob: "loops (modifyJob a f st) = loops st"
  by (simp add: modifyJob_def split: option.splits)

lemma loops_after_loop: "k \<noteq> k' \<Longrightarrow> loops (after_loop k' L st) k = loops st k"
  by (simp add: after_loop_def Let_def split: option.splits)

lemma loops_after_pause: "k \<noteq> k' \<Longrightarrow> loops (after_pause k' L st) k = loops st k"
  by (simp add: after_pause_def loops_after_loop split: option.splits)

lemma loops_loop_head: "k \<noteq> k' \<Longrightarrow> loops (loop_head k' L st) k = loops st k"
  by (simp add: loop_head_def loops_after_loop loops_after_pause split: option.splits)

lemma loops_poll_wake: "k \<noteq> k' \<Longrightarrow> loops (poll_wake k' L st) k = loops st k"
  by (simp add: poll_wake_def loops_after_pause split: option.splits)

lemma loops_countdown_tick: "k \<noteq> k' \<Longrightarrow> loops (countdown_tick k' L st) k = loops st k"
  by (simp add: countdown_tick_def Let_def split: option.splits)

lemma loops_fetch_done: "k \<noteq> k' \<Longrightarrow> loops (fetch_done k' L out st) k = loops st k"
  by (simp add: fetch_done_def Let_def loops_loop_head loops_modifyJob split: option.splits)

lemma loops_elapsed_tick: "loops (elapsed_tick t st) = loops st"
  by (simp add: elapsed_tick_def loops_modifyJob split: option.splits)

lemma loops_start:
  "k \<noteq> nextLoop st \<Longrightarrow> loops (startImportJob b users st) k = loops st k"
  by (simp add: startImportJob_def Let_def loops_loop_head)

lemma refs_start:
  "a \<noteq> b \<Longrightarrow> jobRefs (startImportJob b users st) a = jobRefs st a"
  by (simp add: startImportJob_def Let_def refs_loop_head setTimer_def split: option.splits)

lemma loops_click: "k < nextLoop st \<Longrightarrow> loops (click b act st) k = loops st k"
  by (cases act)
     (simp_all add: click_def Let_def updateJobSettings_def handleStartImport_def
        handleClearAll_def clearImportJob_def pauseImportJob_def resumeImportJob_def
        stopImportJob_def loops_start split: option.splits)

lemma refs_click_other: "a \<noteq> b \<Longrightarrow> jobRefs (click b act st) a = jobRefs st a"
  by (cases act)
     (simp_all add: click_def Let_def updateJobSettings_def handleStartImport_def
        handleClearAll_def clearImportJob_def pauseImportJob_def resumeImportJob_def
        stopImportJob_def refs_start setTimer_def split: option.splits)

lemma refs_click_stop:
  assumes "jobRefs st a = Some r" "ref_isStopped r" "isJobRunning (getJob st a)"
  shows "\<exists>r'. jobRefs (click a act st) a = Some r' \<and> ref_isStopped r'"
  using assms panel_cases(1)[of "getJob st a"]
  by (cases act)
     (auto simp: click_def Let_def updateJobSettings_def handleClearAll_def
        pauseImportJob_def resumeImportJob_def stopImportJob_def setTimer_def
        split: option.splits)

lemma step_keeps_loop:
  assumes "Inv st" "loops st k = Some L" "\<not> resumes e k (l_at L)"
  shows "loops (step e st) k = Some L"
proof -
  have n: "k < nextLoop st" using Inv'_parts(2)[OF Inv_False[OF assms(1)] assms(2)] .
  show ?thesis
  proof (cases e)
    case (Click b act)
    then show ?thesis using n assms(2) by (simp add: loops_click)
  next
    case (ElapsedTick t)
    then show ?thesis using assms(2) by (simp add: loops_elapsed_tick)
  next
    case (PollWake k')
    then show ?thesis using assms(2,3)
      by (cases "k' = k") (auto simp: resumes_def resume_at_def loops_poll_wake split: option.splits)
  next
    case (CountdownTick k')
    then show ?thesis using assms(2,3)
      by (cases "k' = k")
         (auto simp: resumes_def resume_at_def loops_countdown_tick split: option.splits)
  next
    case (FetchDone k' out)
    then show ?thesis using assms(2,3)
      by (cases "k' = k")
         (auto simp: resumes_def resume_at_def loops_fetch_done split: option.splits)
  qed
qed

lemma step_keeps_stop:
  assumes "jobRefs st a = Some r" "ref_isStopped r" "isJobRunning (getJob st a)"
  shows "\<exists>r'. jobRefs (step e st) a = Some r' \<and> ref_isStopped r'"
proof (cases e)
  case (Click b act)
  then show ?thesis
    using assms refs_click_stop[OF assms, of act] refs_click_other[of a b act st]
    by (cases "a = b") auto
qed (use assms in \<open>auto simp: resume_at_def refs_elapsed_tick refs_poll_wake
       refs_countdown_tick refs_fetch_done split: option.splits\<close>)

lemma stop_step:
  assumes I: "Inv st" and l: "loops st k = Some L" "l_at L \<noteq> Returned"
    and r: "jobRefs st (l_accountId L) = Some r" "ref_isStopped r"
  shows "\<exists>L'. loops (step e st) k = Some L' \<and> l_accountId L' = l_accountId L
      \<and> l_users L' = l_users L
      \<and> (l_at L' \<noteq> Returned \<and> l_newResults L' = l_newResults L
           \<and> (\<exists>r'. jobRefs (step e st) (l_accountId L) = Some r' \<and> ref_isStopped r')
         \<or> l_at L' = Returned \<and> length (l_newResults L') \<le> length (l_newResults L) + 1
           \<and> length (l_newResults L') \<le> length (l_users L)
           \<and> status (getJob (step e st) (l_accountId L)) = Stopped
           \<and> results (getJob (step e st) (l_accountId L)) = l_newResults L')"
proof -
  let ?a = "l_accountId L"
  obtain r0 j where x: "jobRefs st ?a = Some r0" "importJobs st ?a = Some j"
    "tracks j L" "good j" "from_input L"
    using Inv_active[OF I l] by auto
  have gj: "getJob st ?a = j" using x(2) by (simp add: getJob_def)
  have run: "isJobRunning (getJob st ?a)" using x(3) gj by (simp add: tracks_def)
  have len: "results j = l_newResults L" "length (l_newResults L) = l_i L"
    "l_i L < length (l_users L)"
    using x(3) by (simp_all add: tracks_def)
  have keep: "\<exists>r'. jobRefs (step e st) ?a = Some r' \<and> ref_isStopped r'"
    by (rule step_keeps_stop[OF r run])
  show ?thesis
  proof (cases "resumes e k (l_at L)")
    case False
    have "loops (step e st) k = Some L" by (rule step_keeps_loop[OF I l(1) False])
    then show ?thesis using l(2) keep by auto
  next
    case True
    show ?thesis
    proof (cases e)
      case (Click b act)
      then show ?thesis using True by (simp add: resumes_def)
    next
      case (ElapsedTick t)
      then show ?thesis using True by (simp add: resumes_def)
    next
      case (PollWake k')
      then have e: "e = PollWake k" and p: "l_at L = AwaitPoll"
        using True by (simp_all add: resumes_def)
      have rt: "jobRefs (toast ''Job Ended'' st) ?a = Some r" using r by simp
      have s: "step e st = after_loop k L (toast ''Job Ended'' st)"
        unfolding e by (rule poll_step_stopped[OF I l(1) p r])
      show ?thesis
        unfolding s using after_loop_effect[OF rt, of k] r(2) len gj
        by (intro exI[of _ "L\<lparr> l_at := Returned \<rparr>"]) simp
    next
      case (CountdownTick k')
      then have e: "e = CountdownTick k" and c: "l_at L = AwaitCountdown"
        using True by (simp_all add: resumes_def)
      have "loops (step e st) k = Some L \<or> loops (step e st) k = Some (L\<lparr> l_at := AwaitFetch \<rparr>)"
        unfolding e countdown_step[OF I l(1) c] using l(1) by simp
      then show ?thesis using keep c by auto
    next
      case (FetchDone k' out)
      then have e: "e = FetchDone k out" and f: "l_at L = AwaitFetch"
        using True by (simp_all add: resumes_def)
      have ns: "next_suspension r (L\<lparr> l_i := l_i L + 1 \<rparr>) = Returned"
        using r(2) by (simp add: next_suspension_def)
      let ?L' = "L\<lparr> l_newResults := l_newResults L @ [result_of (request_for L (l_i L)) out],
                   l_i := l_i L + 1, l_at := Returned \<rparr>"
      have "loops (step e st) k = Some ?L'
          \<and> results (getJob (step e st) ?a) = results (getJob st ?a) @ [result_of (request_for L (l_i L)) out]
          \<and> status (getJob (step e st) ?a) = Stopped"
        unfolding e using fetch_step_outcome[OF I l(1) f, of out] r ns by auto
      then show ?thesis using len gj by (intro exI[of _ ?L']) simp
    qed
  qed
qed

lemma winding_start:
  assumes "loops st k = Some L" "l_at L \<noteq> Returned"
    "jobRefs st (l_accountId L) = Some r" "ref_isStopped r"
  shows "winding_down st k L"
  using assms by (simp add: winding_down_def)

lemma winding_step:
  assumes I: "Inv st" and w: "winding_down st k L"
  shows "winding_down (step e st) k L"
proof -
  obtain L1 where l1: "loops st k = Some L1" "l_accountId L1 = l_accountId L"
    "l_users L1 = l_users L"
    using w by (auto simp: winding_down_def split: option.splits)
  show ?thesis
  proof (cases "l_at L1 = Returned")
    case True
    then have "\<not> resumes e k (l_at L1)" by (simp add: resumes_def split: event.splits)
    then have "loops (step e st) k = Some L1" by (rule step_keeps_loop[OF I l1(1)])
    then show ?thesis using w l1 True by (simp add: winding_down_def)
  next
    case False
    then obtain r where r: "jobRefs st (l_accountId L1) = Some r" "ref_isStopped r"
      and n: "l_newResults L1 = l_newResults L"
      using w l1 by (auto simp: winding_down_def split: option.splits)
    from stop_step[OF I l1(1) False r, of e] l1 n show ?thesis
      by (auto simp: winding_down_def)
  qed
qed

lemma winding_run:
  assumes "Inv st" "winding_down st k L"
  shows "winding_down (run evs st) k L"
  using assms
proof (induction evs arbitrary: st)
  case Nil
  then show ?case by (simp add: run_def)
next
  case (Cons e evs)
  have "winding_down (run evs (step e st)) k L"
    by (rule Cons.IH[OF Inv_step[OF Cons.prems(1)] winding_step[OF Cons.prems]])
  then show ?case by (simp add: run_def)
qed

lemma winding_return:
  assumes I: "Inv st" and w: "winding_down st k L"
    and l: "loops st k = Some L1" "l_at L1 \<noteq> Returned"
      "loops (step e st) k = Some L2" "l_at L2 = Returned"
  shows "status (getJob (step e st) (l_accountId L)) = Stopped
     \<and> results (getJob (step e st) (l_accountId L)) = l_newResults L2"
proof -
  have a: "l_accountId L1 = l_accountId L" using w l(1) by (simp add: winding_down_def)
  obtain r where r: "jobRefs st (l_accountId L1) = Some r" "ref_isStopped r"
    using w l(1,2) by (auto simp: winding_down_def split: option.splits)
  from stop_step[OF I l(1,2) r, of e] l(3,4) a show ?thesis by auto
qed

lemma winding_down_explicit:
  assumes "winding_down st k L"
  shows "\<exists>L'. loops st k = Some L' \<and> l_accountId L' = l_accountId L \<and> l_users L' = l_users L
      \<and> (l_at L' \<noteq> Returned \<and> l_newResults L' = l_newResults L
           \<and> (\<exists>r'. jobRefs st (l_accountId L) = Some r' \<and> ref_isStopped r')
         \<or> l_at L' = Returned \<and> length (l_newResults L') \<le> length (l_newResults L) + 1
           \<and> length (l_newResults L') \<le> length (l_users L))"
  using assms by (auto simp: winding_down_def split: option.splits if_splits)

text \<open>
  C8. \<^verbatim>\<open>stopImportJob\<close> on an account with refs sets the stop flag and changes no job, no
  invocation and no request; End Job on the page is that call while the job is running or
  paused. In a reachable state where the flag of a suspended invocation's account is set:
  the job has at most as many results as the run has records; if the invocation awaits its
  request, the settling of the request records the result, sends nothing further, and ends
  the invocation with status stopped; if it waits in the pause loop, the next wake-up ends
  it with status stopped; if it is in a countdown, each tick still counts down, and the
  tick that reaches zero still sends the request for the pending record. The code after
  the loop sets the status to stopped exactly when the flag is set, and to completed
  otherwise. The flag stays until the invocation has read it: from such a state, whatever
  events follow (clicks on Pause, Resume or End Job, events of other accounts, ticks), the
  invocation remains that of the same run; while it is suspended it has the results it had
  and the flag is still set; once it has returned it has at most one result more, and no
  more results than records; and the step at which it returns leaves the status stopped
  and the job's results those of the invocation.
\<close>

theorem stop_is_cooperative:
  "(jobRefs st a \<noteq> None \<longrightarrow>
      (\<exists>r. jobRefs (stopImportJob a st) a = Some r \<and> ref_isStopped r)
      \<and> importJobs (stopImportJob a st) = importJobs st
      \<and> loops (stopImportJob a st) = loops st
      \<and> requests (stopImportJob a st) = requests st
      \<and> published (stopImportJob a st) = published st)
   \<and> (isJobRunning (getJob st a) \<longrightarrow> click a ClickEndJob st = stopImportJob a st)
   \<and> (\<forall>k L r. loops (after evs) k = Some L \<and> l_at L \<noteq> Returned
         \<and> jobRefs (after evs) (l_accountId L) = Some r \<and> ref_isStopped r \<longrightarrow>
        length (results (getJob (after evs) (l_accountId L))) \<le> length (l_users L)
        \<and> (l_at L = AwaitFetch \<longrightarrow>
             (\<forall>out. status (getJob (step (FetchDone k out) (after evs)) (l_accountId L)) = Stopped
                \<and> map_option l_at (loops (step (FetchDone k out) (after evs)) k) = Some Returned
                \<and> requests (step (FetchDone k out) (after evs)) = requests (after evs)
                \<and> length (results (getJob (step (FetchDone k out) (after evs)) (l_accountId L)))
                    = length (results (getJob (after evs) (l_accountId L))) + 1
                \<and> length (results (getJob (step (FetchDone k out) (after evs)) (l_accountId L)))
                    \<le> length (l_users L)))
        \<and> (l_at L = AwaitPoll \<longrightarrow>
             status (getJob (step (PollWake k) (after evs)) (l_accountId L)) = Stopped
             \<and> map_option l_at (loops (step (PollWake k) (after evs)) k) = Some Returned
             \<and> requests (step (PollWake k) (after evs)) = requests (after evs)
             \<and> results (getJob (step (PollWake k) (after evs)) (l_accountId L))
                 = results (getJob (after evs) (l_accountId L)))
        \<and> (l_at L = AwaitCountdown \<longrightarrow>
             (countdown (getJob (after evs) (l_accountId L)) \<le> 1 \<longrightarrow>
                requests (step (CountdownTick k) (after evs))
                  = requests (after evs) @ [request_for L (l_i L)]
                \<and> map_option l_at (loops (step (CountdownTick k) (after evs)) k) = Some AwaitFetch
                \<and> status (getJob (step (CountdownTick k) (after evs)) (l_accountId L))
                    = status (getJob (after evs) (l_accountId L)))
             \<and> (1 < countdown (getJob (after evs) (l_accountId L)) \<longrightarrow>
                requests (step (CountdownTick k) (after evs)) = requests (after evs)
                \<and> map_option l_at (loops (step (CountdownTick k) (after evs)) k)
                    = Some AwaitCountdown
                \<and> countdown (getJob (step (CountdownTick k) (after evs)) (l_accountId L))
                    = countdown (getJob (after evs) (l_accountId L)) - 1
                \<and> status (getJob (step (CountdownTick k) (after evs)) (l_accountId L))
                    = status (getJob (after evs) (l_accountId L)))))
   \<and> (jobRefs st (l_accountId L0) = Some r0 \<longrightarrow>
        status (getJob (after_loop k0 L0 st) (l_accountId L0))
          = (if ref_isStopped r0 then Stopped else Completed))
   \<and> (\<forall>k L r. loops (after evs) k = Some L \<and> l_at L \<noteq> Returned
         \<and> jobRefs (after evs) (l_accountId L) = Some r \<and> ref_isStopped r \<longrightarrow>
        (\<exists>L'. loops (run evs1 (after evs)) k = Some L'
           \<and> l_accountId L' = l_accountId L \<and> l_users L' = l_users L
           \<and> (l_at L' \<noteq> Returned \<and> l_newResults L' = l_newResults L
                \<and> (\<exists>r'. jobRefs (run evs1 (after evs)) (l_accountId L) = Some r'
                       \<and> ref_isStopped r')
              \<or> l_at L' = Returned
                \<and> length (l_newResults L') \<le> length (l_newResults L) + 1
                \<and> length (l_newResults L') \<le> length (l_users L)))
        \<and> (\<forall>e L1 L2. loops (run evs1 (after evs)) k = Some L1 \<and> l_at L1 \<noteq> Returned
              \<and> loops (step e (run evs1 (after evs))) k = Some L2 \<and> l_at L2 = Returned \<longrightarrow>
             status (getJob (step e (run evs1 (after evs))) (l_accountId L)) = Stopped
             \<and> results (getJob (step e (run evs1 (after evs))) (l_accountId L))
                 = l_newResults L2))"
proof -
  let ?st = "after evs"
  note I = Inv_after[of evs]
  have 1: "jobRefs st a \<noteq> None \<longrightarrow>
      (\<exists>r. jobRefs (stopImportJob a st) a = Some r \<and> ref_isStopped r)
      \<and> importJobs (stopImportJob a st) = importJobs st
      \<and> loops (stopImportJob a st) = loops st
      \<and> requests (stopImportJob a st) = requests st
      \<and> published (stopImportJob a st) = published st"
    using stop_effect[of st a] by auto
  have 2: "isJobRunning (getJob st a) \<longrightarrow> click a ClickEndJob st = stopImportJob a st"
    by (auto simp: click_def Let_def start_panel_def isJobRunning_def)
  have 3: "\<forall>k L r. loops ?st k = Some L \<and> l_at L \<noteq> Returned
         \<and> jobRefs ?st (l_accountId L) = Some r \<and> ref_isStopped r \<longrightarrow>
        length (results (getJob ?st (l_accountId L))) \<le> length (l_users L)
        \<and> (l_at L = AwaitFetch \<longrightarrow>
             (\<forall>out. status (getJob (step (FetchDone k out) ?st) (l_accountId L)) = Stopped
                \<and> map_option l_at (loops (step (FetchDone k out) ?st) k) = Some Returned
                \<and> requests (step (FetchDone k out) ?st) = requests ?st
                \<and> length (results (getJob (step (FetchDone k out) ?st) (l_accountId L)))
                    = length (results (getJob ?st (l_accountId L))) + 1
                \<and> length (results (getJob (step (FetchDone k out) ?st) (l_accountId L)))
                    \<le> length (l_users L)))
        \<and> (l_at L = AwaitPoll \<longrightarrow>
             status (getJob (step (PollWake k) ?st) (l_accountId L)) = Stopped
             \<and> map_option l_at (loops (step (PollWake k) ?st) k) = Some Returned
             \<and> requests (step (PollWake k) ?st) = requests ?st
             \<and> results (getJob (step (PollWake k) ?st) (l_accountId L))
                 = results (getJob ?st (l_accountId L)))
        \<and> (l_at L = AwaitCountdown \<longrightarrow>
             (countdown (getJob ?st (l_accountId L)) \<le> 1 \<longrightarrow>
                requests (step (CountdownTick k) ?st)
                  = requests ?st @ [request_for L (l_i L)]
                \<and> map_option l_at (loops (step (CountdownTick k) ?st) k) = Some AwaitFetch
                \<and> status (getJob (step (CountdownTick k) ?st) (l_accountId L))
                    = status (getJob ?st (l_accountId L)))
             \<and> (1 < countdown (getJob ?st (l_accountId L)) \<longrightarrow>
                requests (step (CountdownTick k) ?st) = requests ?st
                \<and> map_option l_at (loops (step (CountdownTick k) ?st) k)
                    = Some AwaitCountdown
                \<and> countdown (getJob (step (CountdownTick k) ?st) (l_accountId L))
                    = countdown (getJob ?st (l_accountId L)) - 1
                \<and> status (getJob (step (CountdownTick k) ?st) (l_accountId L))
                    = status (getJob ?st (l_accountId L))))"
  proof (intro allI impI)
    fix k L r
    assume h: "loops ?st k = Some L \<and> l_at L \<noteq> Returned
         \<and> jobRefs ?st (l_accountId L) = Some r \<and> ref_isStopped r"
    let ?a = "l_accountId L"
    obtain r' j where x: "jobRefs ?st ?a = Some r'" "importJobs ?st ?a = Some j"
      "tracks j L" "good j" "from_input L"
      using Inv_active[OF I, of k L] h by auto
    have gj: "getJob ?st ?a = j" using x(2) by (simp add: getJob_def)
    have len: "length (results j) = l_i L" "l_i L < length (l_users L)"
      using x(3) by (simp_all add: tracks_def)
    have A: "length (results (getJob ?st ?a)) \<le> length (l_users L)"
      using len gj by simp
    have B: "l_at L = AwaitFetch \<longrightarrow>
             (\<forall>out. status (getJob (step (FetchDone k out) ?st) ?a) = Stopped
                \<and> map_option l_at (loops (step (FetchDone k out) ?st) k) = Some Returned
                \<and> requests (step (FetchDone k out) ?st) = requests ?st
                \<and> length (results (getJob (step (FetchDone k out) ?st) ?a))
                    = length (results (getJob ?st ?a)) + 1
                \<and> length (results (getJob (step (FetchDone k out) ?st) ?a))
                    \<le> length (l_users L))"
    proof (intro impI allI)
      fix out assume f: "l_at L = AwaitFetch"
      have ns: "next_suspension r (L\<lparr> l_i := l_i L + 1 \<rparr>) = Returned"
        using h by (simp add: next_suspension_def)
      show "status (getJob (step (FetchDone k out) ?st) ?a) = Stopped
                \<and> map_option l_at (loops (step (FetchDone k out) ?st) k) = Some Returned
                \<and> requests (step (FetchDone k out) ?st) = requests ?st
                \<and> length (results (getJob (step (FetchDone k out) ?st) ?a))
                    = length (results (getJob ?st ?a)) + 1
                \<and> length (results (getJob (step (FetchDone k out) ?st) ?a))
                    \<le> length (l_users L)"
        using fetch_step_outcome[OF I, of k L out] h f ns len gj by auto
    qed
    have C: "l_at L = AwaitPoll \<longrightarrow>
             status (getJob (step (PollWake k) ?st) ?a) = Stopped
             \<and> map_option l_at (loops (step (PollWake k) ?st) k) = Some Returned
             \<and> requests (step (PollWake k) ?st) = requests ?st
             \<and> results (getJob (step (PollWake k) ?st) ?a) = results (getJob ?st ?a)"
    proof
      assume p: "l_at L = AwaitPoll"
      have rt: "jobRefs (toast ''Job Ended'' ?st) ?a = Some r" using h by simp
      have e: "step (PollWake k) ?st = after_loop k L (toast ''Job Ended'' ?st)"
        using poll_step_stopped[OF I, of k L r] h p by simp
      show "status (getJob (step (PollWake k) ?st) ?a) = Stopped
             \<and> map_option l_at (loops (step (PollWake k) ?st) k) = Some Returned
             \<and> requests (step (PollWake k) ?st) = requests ?st
             \<and> results (getJob (step (PollWake k) ?st) ?a) = results (getJob ?st ?a)"
        unfolding e using after_loop_effect[OF rt, of k] h by simp
    qed
    have D: "l_at L = AwaitCountdown \<longrightarrow>
             (countdown (getJob ?st ?a) \<le> 1 \<longrightarrow>
                requests (step (CountdownTick k) ?st)
                  = requests ?st @ [request_for L (l_i L)]
                \<and> map_option l_at (loops (step (CountdownTick k) ?st) k) = Some AwaitFetch
                \<and> status (getJob (step (CountdownTick k) ?st) ?a) = status (getJob ?st ?a))
             \<and> (1 < countdown (getJob ?st ?a) \<longrightarrow>
                requests (step (CountdownTick k) ?st) = requests ?st
                \<and> map_option l_at (loops (step (CountdownTick k) ?st) k)
                    = Some AwaitCountdown
                \<and> countdown (getJob (step (CountdownTick k) ?st) ?a)
                    = countdown (getJob ?st ?a) - 1
                \<and> status (getJob (step (CountdownTick k) ?st) ?a) = status (getJob ?st ?a))"
    proof
      assume c: "l_at L = AwaitCountdown"
      have l: "loops ?st k = Some L" using h by simp
      show "(countdown (getJob ?st ?a) \<le> 1 \<longrightarrow>
                requests (step (CountdownTick k) ?st)
                  = requests ?st @ [request_for L (l_i L)]
                \<and> map_option l_at (loops (step (CountdownTick k) ?st) k) = Some AwaitFetch
                \<and> status (getJob (step (CountdownTick k) ?st) ?a) = status (getJob ?st ?a))
             \<and> (1 < countdown (getJob ?st ?a) \<longrightarrow>
                requests (step (CountdownTick k) ?st) = requests ?st
                \<and> map_option l_at (loops (step (CountdownTick k) ?st) k)
                    = Some AwaitCountdown
                \<and> countdown (getJob (step (CountdownTick k) ?st) ?a)
                    = countdown (getJob ?st ?a) - 1
                \<and> status (getJob (step (CountdownTick k) ?st) ?a) = status (getJob ?st ?a))"
        unfolding countdown_step[OF I l c] using l c by (simp add: request_for_def)
    qed
    show "length (results (getJob ?st ?a)) \<le> length (l_users L)
        \<and> (l_at L = AwaitFetch \<longrightarrow>
             (\<forall>out. status (getJob (step (FetchDone k out) ?st) ?a) = Stopped
                \<and> map_option l_at (loops (step (FetchDone k out) ?st) k) = Some Returned
                \<and> requests (step (FetchDone k out) ?st) = requests ?st
                \<and> length (results (getJob (step (FetchDone k out) ?st) ?a))
                    = length (results (getJob ?st ?a)) + 1
                \<and> length (results (getJob (step (FetchDone k out) ?st) ?a))
                    \<le> length (l_users L)))
        \<and> (l_at L = AwaitPoll \<longrightarrow>
             status (getJob (step (PollWake k) ?st) ?a) = Stopped
             \<and> map_option l_at (loops (step (PollWake k) ?st) k) = Some Returned
             \<and> requests (step (PollWake k) ?st) = requests ?st
             \<and> results (getJob (step (PollWake k) ?st) ?a) = results (getJob ?st ?a))
        \<and> (l_at L = AwaitCountdown \<longrightarrow>
             (countdown (getJob ?st ?a) \<le> 1 \<longrightarrow>
                requests (step (CountdownTick k) ?st)
                  = requests ?st @ [request_for L (l_i L)]
                \<and> map_option l_at (loops (step (CountdownTick k) ?st) k) = Some AwaitFetch
                \<and> status (getJob (step (CountdownTick k) ?st) ?a) = status (getJob ?st ?a))
             \<and> (1 < countdown (getJob ?st ?a) \<longrightarrow>
                requests (step (CountdownTick k) ?st) = requests ?st
                \<and> map_option l_at (loops (step (CountdownTick k) ?st) k)
                    = Some AwaitCountdown
                \<and> countdown (getJob (step (CountdownTick k) ?st) ?a)
                    = countdown (getJob ?st ?a) - 1
                \<and> status (getJob (step (CountdownTick k) ?st) ?a) = status (getJob ?st ?a)))"
      using A B C D by blast
  qed
  have 4: "jobRefs st (l_accountId L0) = Some r0 \<longrightarrow>
        status (getJob (after_loop k0 L0 st) (l_accountId L0))
          = (if ref_isStopped r0 then Stopped else Completed)"
    using after_loop_effect(2)[of st L0 r0 k0 "l_accountId L0"] by simp
  have 5: "\<forall>k L r. loops ?st k = Some L \<and> l_at L \<noteq> Returned
         \<and> jobRefs ?st (l_accountId L) = Some r \<and> ref_isStopped r \<longrightarrow>
        (\<exists>L'. loops (run evs1 ?st) k = Some L'
           \<and> l_accountId L' = l_accountId L \<and> l_users L' = l_users L
           \<and> (l_at L' \<noteq> Returned \<and> l_newResults L' = l_newResults L
                \<and> (\<exists>r'. jobRefs (run evs1 ?st) (l_accountId L) = Some r' \<and> ref_isStopped r')
              \<or> l_at L' = Returned
                \<and> length (l_newResults L') \<le> length (l_newResults L) + 1
                \<and> length (l_newResults L') \<le> length (l_users L)))
        \<and> (\<forall>e L1 L2. loops (run evs1 ?st) k = Some L1 \<and> l_at L1 \<noteq> Returned
              \<and> loops (step e (run evs1 ?st)) k = Some L2 \<and> l_at L2 = Returned \<longrightarrow>
             status (getJob (step e (run evs1 ?st)) (l_accountId L)) = Stopped
             \<and> results (getJob (step e (run evs1 ?st)) (l_accountId L)) = l_newResults L2)"
  proof (intro allI impI)
    fix k L r
    assume h: "loops ?st k = Some L \<and> l_at L \<noteq> Returned
         \<and> jobRefs ?st (l_accountId L) = Some r \<and> ref_isStopped r"
    have w0: "winding_down ?st k L" using h by (intro winding_start) auto
    have w: "winding_down (run evs1 ?st) k L" by (rule winding_run[OF I w0])
    have I1: "Inv (run evs1 ?st)" by (rule Inv_run[OF I])
    have B: "\<forall>e L1 L2. loops (run evs1 ?st) k = Some L1 \<and> l_at L1 \<noteq> Returned
              \<and> loops (step e (run evs1 ?st)) k = Some L2 \<and> l_at L2 = Returned \<longrightarrow>
             status (getJob (step e (run evs1 ?st)) (l_accountId L)) = Stopped
             \<and> results (getJob (step e (run evs1 ?st)) (l_accountId L)) = l_newResults L2"
      using winding_return[OF I1 w] by blast
    show "(\<exists>L'. loops (run evs1 ?st) k = Some L'
           \<and> l_accountId L' = l_accountId L \<and> l_users L' = l_users L
           \<and> (l_at L' \<noteq> Returned \<and> l_newResults L' = l_newResults L
                \<and> (\<exists>r'. jobRefs (run evs1 ?st) (l_accountId L) = Some r' \<and> ref_isStopped r')
              \<or> l_at L' = Returned
                \<and> length (l_newResults L') \<le> length (l_newResults L) + 1
                \<and> length (l_newResults L') \<le> length (l_users L)))
        \<and> (\<forall>e L1 L2. loops (run evs1 ?st) k = Some L1 \<and> l_at L1 \<noteq> Returned
              \<and> loops (step e (run evs1 ?st)) k = Some L2 \<and> l_at L2 = Returned \<longrightarrow>
             status (getJob (step e (run evs1 ?st)) (l_accountId L)) = Stopped
             \<and> results (getJob (step e (run evs1 ?st)) (l_accountId L)) = l_newResults L2)"
      using winding_down_explicit[OF w] B by blast
  qed
  show ?thesis using 1 2 3 4 5 by blast
qed


lemma stop_in_countdown_after:
  "stop_in_countdown = after [Click ''acct'' (SetUserEmails two_lines),
      Click ''acct'' (SetDelayInSeconds 2), Click ''acct'' ClickStartImport,
      FetchDone 0 invited, Click ''acct'' ClickEndJob]"
  by (simp add: stop_in_countdown_def counting_down_def started_def run_after)

lemma stop_in_flight_after:
  "stop_in_flight = after [Click ''acct'' (SetUserEmails two_lines),
      Click ''acct'' (SetDelayInSeconds 0), Click ''acct'' ClickStartImport,
      Click ''acct'' ClickEndJob]"
  by (simp add: stop_in_flight_def started_def run_after)

theorem stop_is_cooperative_witness:
  "map_option ref_isStopped (jobRefs stop_in_countdown ''acct'') = Some True
   \<and> status (getJob stop_in_countdown ''acct'') = Running
   \<and> map_option l_at (loops stop_in_countdown 0) = Some AwaitCountdown
   \<and> countdown (getJob stop_in_countdown ''acct'') = 2
   \<and> requests (step (CountdownTick 0) stop_in_countdown) = requests stop_in_countdown
   \<and> map_option l_at (loops (step (CountdownTick 0) stop_in_countdown) 0) = Some AwaitCountdown
   \<and> length (requests stop_in_countdown) = 1
   \<and> length (requests (run [CountdownTick 0, CountdownTick 0] stop_in_countdown)) = 2
   \<and> status (getJob (run [CountdownTick 0, CountdownTick 0, FetchDone 0 Threw]
                 stop_in_countdown) ''acct'') = Stopped
   \<and> length (results (getJob (run [CountdownTick 0, CountdownTick 0, FetchDone 0 Threw]
                 stop_in_countdown) ''acct'')) = 2
   \<and> map_option ref_isStopped (jobRefs stop_in_flight ''acct'') = Some True
   \<and> map_option l_at (loops stop_in_flight 0) = Some AwaitFetch
   \<and> status (getJob (run [Click ''acct'' ClickPause, Click ''acct'' ClickResume]
                 stop_in_flight) ''acct'') = Running
   \<and> map_option l_at (loops (run [Click ''acct'' ClickPause, Click ''acct'' ClickResume]
                 stop_in_flight) 0) = Some AwaitFetch
   \<and> (\<exists>r'. jobRefs (run [Click ''acct'' ClickPause, Click ''acct'' ClickResume]
                 stop_in_flight) ''acct'' = Some r' \<and> ref_isStopped r')
   \<and> status (getJob (step (FetchDone 0 invited)
                 (run [Click ''acct'' ClickPause, Click ''acct'' ClickResume] stop_in_flight))
               ''acct'') = Stopped
   \<and> length (results (getJob (step (FetchDone 0 invited)
                 (run [Click ''acct'' ClickPause, Click ''acct'' ClickResume] stop_in_flight))
               ''acct'')) = 1
   \<and> length (requests (step (FetchDone 0 invited)
                 (run [Click ''acct'' ClickPause, Click ''acct'' ClickResume] stop_in_flight)))
       = 1"
proof -
  let ?L = "the (loops stop_in_countdown 0)"
  let ?r = "the (jobRefs stop_in_countdown ''acct'')"
  have c: "map_option ref_isStopped (jobRefs stop_in_countdown ''acct'') = Some True"
    "status (getJob stop_in_countdown ''acct'') = Running"
    "map_option l_at (loops stop_in_countdown 0) = Some AwaitCountdown"
    "countdown (getJob stop_in_countdown ''acct'') = 2"
    "length (requests stop_in_countdown) = 1"
    "length (requests (run [CountdownTick 0, CountdownTick 0] stop_in_countdown)) = 2"
    "status (getJob (run [CountdownTick 0, CountdownTick 0, FetchDone 0 Threw]
                 stop_in_countdown) ''acct'') = Stopped"
    "length (results (getJob (run [CountdownTick 0, CountdownTick 0, FetchDone 0 Threw]
                 stop_in_countdown) ''acct'')) = 2"
    "l_accountId ?L = ''acct''"
    by code_simp+
  have h: "loops stop_in_countdown 0 = Some ?L \<and> l_at ?L \<noteq> Returned
      \<and> jobRefs stop_in_countdown (l_accountId ?L) = Some ?r \<and> ref_isStopped ?r
      \<and> l_at ?L = AwaitCountdown \<and> 1 < countdown (getJob stop_in_countdown (l_accountId ?L))"
    using c by auto
  have t1: "requests (step (CountdownTick 0) stop_in_countdown) = requests stop_in_countdown
   \<and> map_option l_at (loops (step (CountdownTick 0) stop_in_countdown) 0) = Some AwaitCountdown"
    using h stop_is_cooperative[where evs = "[Click ''acct'' (SetUserEmails two_lines),
      Click ''acct'' (SetDelayInSeconds 2), Click ''acct'' ClickStartImport,
      FetchDone 0 invited, Click ''acct'' ClickEndJob]"]
    unfolding stop_in_countdown_after[symmetric] by blast
  let ?M = "the (loops stop_in_flight 0)"
  let ?q = "the (jobRefs stop_in_flight ''acct'')"
  let ?s1 = "run [Click ''acct'' ClickPause, Click ''acct'' ClickResume] stop_in_flight"
  let ?M1 = "the (loops ?s1 0)"
  let ?M2 = "the (loops (step (FetchDone 0 invited) ?s1) 0)"
  have d: "map_option ref_isStopped (jobRefs stop_in_flight ''acct'') = Some True"
    "map_option l_at (loops stop_in_flight 0) = Some AwaitFetch"
    "l_accountId ?M = ''acct''"
    "status (getJob ?s1 ''acct'') = Running"
    "map_option l_at (loops ?s1 0) = Some AwaitFetch"
    "map_option l_at (loops (step (FetchDone 0 invited) ?s1) 0) = Some Returned"
    "length (results (getJob (step (FetchDone 0 invited) ?s1) ''acct'')) = 1"
    "length (requests (step (FetchDone 0 invited) ?s1)) = 1"
    by code_simp+
  have h2: "loops stop_in_flight 0 = Some ?M \<and> l_at ?M \<noteq> Returned
      \<and> jobRefs stop_in_flight (l_accountId ?M) = Some ?q \<and> ref_isStopped ?q"
    using d(1,2,3) by auto
  note T = stop_is_cooperative[where evs = "[Click ''acct'' (SetUserEmails two_lines),
      Click ''acct'' (SetDelayInSeconds 0), Click ''acct'' ClickStartImport,
      Click ''acct'' ClickEndJob]"
      and ?evs1.0 = "[Click ''acct'' ClickPause, Click ''acct'' ClickResume]",
      unfolded stop_in_flight_after[symmetric], THEN conjunct2, THEN conjunct2,
      THEN conjunct2, THEN conjunct2, rule_format, of 0 ?M ?q, OF h2]
  have t2: "(\<exists>L'. loops ?s1 0 = Some L'
           \<and> (l_at L' \<noteq> Returned
                \<and> (\<exists>r'. jobRefs ?s1 (l_accountId ?M) = Some r' \<and> ref_isStopped r')
              \<or> l_at L' = Returned))
        \<and> (\<forall>e L1 L2. loops ?s1 0 = Some L1 \<and> l_at L1 \<noteq> Returned
              \<and> loops (step e ?s1) 0 = Some L2 \<and> l_at L2 = Returned \<longrightarrow>
             status (getJob (step e ?s1) (l_accountId ?M)) = Stopped)"
    using T by blast
  have a1: "loops ?s1 0 = Some ?M1 \<and> l_at ?M1 \<noteq> Returned" using d(5) by auto
  have a2: "loops (step (FetchDone 0 invited) ?s1) 0 = Some ?M2 \<and> l_at ?M2 = Returned"
    using d(6) by auto
  have t3: "\<exists>r'. jobRefs ?s1 ''acct'' = Some r' \<and> ref_isStopped r'"
    using t2 a1 d(3) by auto
  have t4: "status (getJob (step (FetchDone 0 invited) ?s1) ''acct'') = Stopped"
    using t2 a1 a2 d(3) by metis
  show ?thesis
    by (intro conjI) (fact c(1) c(2) c(3) c(4) c(5) c(6) c(7) c(8) t1[THEN conjunct1]
        t1[THEN conjunct2] d(1) d(2) d(4) d(5) d(7) d(8) t3 t4)+
qed

section \<open>The delay between records\<close>

lemma run_snoc: "run (es @ [e]) st = step e (run es st)"
  by (simp add: run_def)

lemma replicate_snoc: "replicate (Suc m) x = replicate m x @ [x]"
  by (simp add: replicate_append_same)

lemma ticks_before_zero:
  assumes I: "Inv s" and l: "loops s k = Some L" "l_at L = AwaitCountdown"
    and j: "importJobs s (l_accountId L) = Some j"
  shows "int m < countdown j \<Longrightarrow>
    run (replicate m (CountdownTick k)) s =
      s\<lparr> importJobs := (importJobs s)(l_accountId L \<mapsto> j\<lparr> countdown := countdown j - int m \<rparr>),
         published := published s @
           map (\<lambda>i. (l_accountId L, j\<lparr> countdown := countdown j - int i \<rparr>)) [1..<Suc m] \<rparr>"
proof (induction m)
  case 0
  have "(importJobs s)(l_accountId L \<mapsto> j) = importJobs s" using j by (simp add: map_upd_triv)
  then show ?case by (simp add: run_def)
next
  case (Suc m)
  let ?a = "l_accountId L"
  let ?sm = "s\<lparr> importJobs := (importJobs s)(?a \<mapsto> j\<lparr> countdown := countdown j - int m \<rparr>),
         published := published s @
           map (\<lambda>i. (?a, j\<lparr> countdown := countdown j - int i \<rparr>)) [1..<Suc m] \<rparr>"
  have lt: "int m < countdown j" using Suc.prems by simp
  have sm: "run (replicate m (CountdownTick k)) s = ?sm" using Suc.IH[OF lt] .
  have Im: "Inv ?sm" using Inv_run[OF I, of "replicate m (CountdownTick k)"] sm by simp
  have lm: "loops ?sm k = Some L" using l by simp
  have gm: "getJob ?sm ?a = j\<lparr> countdown := countdown j - int m \<rparr>" by (simp add: getJob_def)
  have nz: "\<not> countdown j - int m - 1 \<le> 0" using Suc.prems by simp
  have "run (replicate (Suc m) (CountdownTick k)) s = step (CountdownTick k) ?sm"
    unfolding replicate_snoc run_snoc sm ..
  also have "\<dots> = publish ?a ((getJob ?sm ?a)\<lparr> countdown := countdown (getJob ?sm ?a) - 1 \<rparr>) ?sm"
    unfolding countdown_step[OF Im lm l(2)] gm using nz by simp
  also have "\<dots> = s\<lparr> importJobs := (importJobs s)(?a \<mapsto> j\<lparr> countdown := countdown j - int (Suc m) \<rparr>),
         published := published s @
           map (\<lambda>i. (?a, j\<lparr> countdown := countdown j - int i \<rparr>)) [1..<Suc (Suc m)] \<rparr>"
    unfolding gm by (simp add: publish_def algebra_simps)
  finally show ?case .
qed


lemma count_down_list: "map (\<lambda>i. int n - int i) [1..<Suc n] = rev (map int [0..<n])"
proof (rule nth_equalityI)
  show "length (map (\<lambda>i. int n - int i) [1..<Suc n]) = length (rev (map int [0..<n]))" by simp
next
  fix i assume "i < length (map (\<lambda>i. int n - int i) [1..<Suc n])"
  then have i: "i < n" by (simp del: upt_Suc)
  have "map (\<lambda>i. int n - int i) [1..<Suc n] ! i = int n - int (1 + i)"
    using i by (simp del: upt_Suc)
  moreover have "rev (map int [0..<n]) ! i = int (n - Suc i)"
    using i by (simp add: rev_nth)
  ultimately show "map (\<lambda>i. int n - int i) [1..<Suc n] ! i = rev (map int [0..<n]) ! i"
    using i by simp
qed

lemma spread_clear:
  "spread j (no_updates\<lparr> p_nextUserEmail := Some None, p_countdown := Some 0 \<rparr>)
     = j\<lparr> countdown := 0, nextUserEmail := None \<rparr>"
  by (simp add: spread_def no_updates_def)

lemma ticks_to_zero:
  assumes I: "Inv s" and l: "loops s k = Some L" "l_at L = AwaitCountdown"
    and j: "importJobs s (l_accountId L) = Some j" and c: "1 \<le> countdown j"
  shows "run (replicate (nat (countdown j)) (CountdownTick k)) s =
      s\<lparr> importJobs := (importJobs s)
            (l_accountId L \<mapsto> j\<lparr> countdown := 0, nextUserEmail := None \<rparr>),
         loops := (loops s)(k \<mapsto> L\<lparr> l_at := AwaitFetch \<rparr>),
         requests := requests s @ [request_for L (l_i L)],
         published := published s @
           map (\<lambda>i. (l_accountId L, j\<lparr> countdown := countdown j - int i \<rparr>))
             [1..<Suc (nat (countdown j))]
           @ [(l_accountId L, j\<lparr> countdown := 0, nextUserEmail := None \<rparr>)] \<rparr>"
proof -
  let ?a = "l_accountId L"
  obtain m where m: "nat (countdown j) = Suc m" using c by (cases "nat (countdown j)") auto
  then have cj: "countdown j = int (Suc m)" using c by linarith
  let ?sm = "s\<lparr> importJobs := (importJobs s)(?a \<mapsto> j\<lparr> countdown := countdown j - int m \<rparr>),
         published := published s @
           map (\<lambda>i. (?a, j\<lparr> countdown := countdown j - int i \<rparr>)) [1..<Suc m] \<rparr>"
  have lt: "int m < countdown j" using cj by simp
  have sm: "run (replicate m (CountdownTick k)) s = ?sm"
    by (rule ticks_before_zero[OF I l j lt])
  have Im: "Inv ?sm" using Inv_run[OF I, of "replicate m (CountdownTick k)"] sm by simp
  have lm: "loops ?sm k = Some L" using l by simp
  have gm: "getJob ?sm ?a = j\<lparr> countdown := countdown j - int m \<rparr>" by (simp add: getJob_def)
  have z: "countdown j - int m - 1 \<le> 0" using cj by simp
  have "run (replicate (nat (countdown j)) (CountdownTick k)) s = step (CountdownTick k) ?sm"
    unfolding m replicate_snoc run_snoc sm ..
  also have "\<dots> = issue_fetch k L (l_users L ! l_i L)
         (updateJobState ?a (no_updates\<lparr> p_nextUserEmail := Some None, p_countdown := Some 0 \<rparr>)
            (publish ?a ((getJob ?sm ?a)\<lparr> countdown := countdown (getJob ?sm ?a) - 1 \<rparr>) ?sm))"
    unfolding countdown_step[OF Im lm l(2)] gm using z by simp
  also have "\<dots> = s\<lparr> importJobs := (importJobs s)
            (?a \<mapsto> j\<lparr> countdown := 0, nextUserEmail := None \<rparr>),
         loops := (loops s)(k \<mapsto> L\<lparr> l_at := AwaitFetch \<rparr>),
         requests := requests s @ [request_for L (l_i L)],
         published := published s @
           map (\<lambda>i. (?a, j\<lparr> countdown := countdown j - int i \<rparr>)) [1..<Suc (nat (countdown j))]
           @ [(?a, j\<lparr> countdown := 0, nextUserEmail := None \<rparr>)] \<rparr>"
  proof -
    have up: "[1..<Suc (Suc m)] = [1..<Suc m] @ [Suc m]" by simp
    have z2: "countdown j - int m - 1 = 0" "countdown j - int (Suc m) = 0"
      "countdown j - (1 + int m) = 0" using cj by simp_all
    show ?thesis
      unfolding gm m up
      by (simp add: publish_def updateJobState_def issue_fetch_def suspend_def getJob_def
        spread_clear request_for_def z2 del: upt_Suc)
  qed
  finally show ?thesis .
qed


lemma enter_via_fetch:
  assumes I: "Inv st" and l: "loops st k = Some L" "l_at L = AwaitFetch"
    and r: "jobRefs st (l_accountId L) = Some r" "\<not> ref_isStopped r" "\<not> ref_isPaused r"
    and n: "l_i L + 1 < length (l_users L)"
  shows "\<exists>L2 st1. l_accountId L2 = l_accountId L \<and> l_users L2 = l_users L
      \<and> l_settings L2 = l_settings L \<and> l_i L2 = l_i L + 1
      \<and> requests st1 = requests st \<and> loops st1 = loops st
      \<and> countdown (getJob st1 (l_accountId L)) = countdown (getJob st (l_accountId L))
      \<and> nextUserEmail (getJob st1 (l_accountId L)) = nextUserEmail (getJob st (l_accountId L))
      \<and> step (FetchDone k out) st =
          (if 0 < delayInSeconds (l_settings L) then
             suspend k L2 AwaitCountdown
               (updateJobState (l_accountId L)
                  (no_updates\<lparr> p_nextUserEmail := Some (Some (email (l_users L ! (l_i L + 1)))),
                               p_countdown := Some (delayInSeconds (l_settings L)) \<rparr>) st1)
           else issue_fetch k L2 (l_users L ! (l_i L + 1)) st1)"
proof -
  let ?a = "l_accountId L"
  let ?res = "result_of (request_for L (l_i L)) out"
  let ?L2 = "L\<lparr> l_newResults := l_newResults L @ [?res], l_i := l_i L + 1 \<rparr>"
  let ?j1 = "record_result (L\<lparr> l_newResults := l_newResults L @ [?res] \<rparr>) ?res"
  obtain r' j where x: "jobRefs st ?a = Some r'" "importJobs st ?a = Some j" "tracks j L"
    "user_at L = Some (l_users L ! l_i L)"
    "step (FetchDone k out) st = loop_head k ?L2 (publish ?a (?j1 j) st)"
    using fetch_step[OF I l, of out] by blast
  let ?st1 = "publish ?a (?j1 j) st"
  have r1: "jobRefs ?st1 (l_accountId ?L2) = Some r" using r(1) by simp
  have i2: "l_i ?L2 < length (l_users ?L2)" using n by simp
  have gj: "getJob st ?a = j" using x(2) by (simp add: getJob_def)
  have e: "step (FetchDone k out) st =
          (if 0 < delayInSeconds (l_settings L) then
             suspend k ?L2 AwaitCountdown
               (updateJobState ?a
                  (no_updates\<lparr> p_nextUserEmail := Some (Some (email (l_users L ! (l_i L + 1)))),
                               p_countdown := Some (delayInSeconds (l_settings L)) \<rparr>) ?st1)
           else issue_fetch k ?L2 (l_users L ! (l_i L + 1)) ?st1)"
    unfolding x(5) loop_head_effect[OF r1] after_pause_effect[OF r1 i2]
    using r(2,3) n by simp
  have f: "countdown (getJob ?st1 ?a) = countdown (getJob st ?a)"
    "nextUserEmail (getJob ?st1 ?a) = nextUserEmail (getJob st ?a)"
    using gj by (simp_all add: record_result_def)
  show ?thesis
    by (rule exI[of _ ?L2], rule exI[of _ ?st1]) (use e f in simp)
qed

lemma enter_via_poll:
  assumes I: "Inv st" and l: "loops st k = Some L" "l_at L = AwaitPoll"
    and r: "jobRefs st (l_accountId L) = Some r" "\<not> ref_isStopped r" "\<not> ref_isPaused r"
  shows "step (PollWake k) st =
          (if 0 < l_i L \<and> 0 < delayInSeconds (l_settings L) then
             suspend k L AwaitCountdown
               (updateJobState (l_accountId L)
                  (no_updates\<lparr> p_nextUserEmail := Some (Some (email (l_users L ! l_i L))),
                               p_countdown := Some (delayInSeconds (l_settings L)) \<rparr>) st)
           else issue_fetch k L (l_users L ! l_i L) st)"
proof -
  obtain r' j where x: "jobRefs st (l_accountId L) = Some r'" "importJobs st (l_accountId L) = Some j"
    "tracks j L" "good j" "from_input L"
    using Inv_active[OF I l(1)] l(2) by auto
  have i: "l_i L < length (l_users L)" using x(3) by (simp add: tracks_def)
  show ?thesis
    using l r after_pause_effect[OF r(1) i, of k]
    by (simp add: resume_at_def poll_wake_def)
qed

lemma start_first_request:
  assumes "users \<noteq> []"
  shows "requests (startImportJob a users st)
      = requests st @ [\<lparr> q_user = users ! 0, q_accountId = a,
                          q_sendInvites = sendInvites (getJob st a) \<rparr>]"
    and "countdown (getJob (startImportJob a users st) a) = 0"
    and "nextUserEmail (getJob (startImportJob a users st) a) = None"
  using assms
  by (simp_all add: startImportJob_def Let_def setTimer_def loop_head_def after_pause_def
      user_at_def getJob_def)


text \<open>
  C7. In a reachable state, when the request of a record settles and another record
  follows, with no stop and no pause requested: if the delay captured at start is
  positive, no request is sent, and the store shows the next record's email as pending
  and the countdown at the delay; if the delay is not positive, the next request is sent
  at once and the countdown fields are untouched. The same countdown begins when a paused
  invocation wakes up unpaused before a record that is not the first. From a countdown
  at \<open>c \<ge> 1\<close>, fewer than \<open>c\<close> ticks send nothing and show \<open>c\<close> minus the number of
  ticks; \<open>c\<close> ticks write \<open>c - 1, ..., 0\<close> with the pending email and then the cleared pair
  (0 and no email), and send exactly the request for the pending record. The first record
  of a run is requested by the start itself, without any countdown, whatever the delay.
\<close>

theorem countdown_before_next_record:
  "(\<forall>k L r out. loops (after evs) k = Some L \<and> l_at L = AwaitFetch
        \<and> jobRefs (after evs) (l_accountId L) = Some r \<and> \<not> ref_isStopped r \<and> \<not> ref_isPaused r
        \<and> l_i L + 1 < length (l_users L) \<longrightarrow>
      (0 < delayInSeconds (l_settings L) \<longrightarrow>
         map_option l_at (loops (step (FetchDone k out) (after evs)) k) = Some AwaitCountdown
         \<and> map_option l_i (loops (step (FetchDone k out) (after evs)) k) = Some (l_i L + 1)
         \<and> requests (step (FetchDone k out) (after evs)) = requests (after evs)
         \<and> countdown (getJob (step (FetchDone k out) (after evs)) (l_accountId L))
             = delayInSeconds (l_settings L)
         \<and> nextUserEmail (getJob (step (FetchDone k out) (after evs)) (l_accountId L))
             = Some (email (l_users L ! (l_i L + 1))))
      \<and> (delayInSeconds (l_settings L) \<le> 0 \<longrightarrow>
         map_option l_at (loops (step (FetchDone k out) (after evs)) k) = Some AwaitFetch
         \<and> requests (step (FetchDone k out) (after evs))
             = requests (after evs) @ [request_for L (l_i L + 1)]
         \<and> countdown (getJob (step (FetchDone k out) (after evs)) (l_accountId L))
             = countdown (getJob (after evs) (l_accountId L))
         \<and> nextUserEmail (getJob (step (FetchDone k out) (after evs)) (l_accountId L))
             = nextUserEmail (getJob (after evs) (l_accountId L))))
   \<and> (\<forall>k L r. loops (after evs) k = Some L \<and> l_at L = AwaitPoll
        \<and> jobRefs (after evs) (l_accountId L) = Some r \<and> \<not> ref_isStopped r \<and> \<not> ref_isPaused r
        \<and> 0 < l_i L \<and> 0 < delayInSeconds (l_settings L) \<longrightarrow>
         map_option l_at (loops (step (PollWake k) (after evs)) k) = Some AwaitCountdown
         \<and> requests (step (PollWake k) (after evs)) = requests (after evs)
         \<and> countdown (getJob (step (PollWake k) (after evs)) (l_accountId L))
             = delayInSeconds (l_settings L)
         \<and> nextUserEmail (getJob (step (PollWake k) (after evs)) (l_accountId L))
             = Some (email (l_users L ! l_i L)))
   \<and> (\<forall>k L. loops (after evs) k = Some L \<and> l_at L = AwaitCountdown
        \<and> 1 \<le> countdown (getJob (after evs) (l_accountId L)) \<longrightarrow>
      (\<forall>m. int m < countdown (getJob (after evs) (l_accountId L)) \<longrightarrow>
         requests (run (replicate m (CountdownTick k)) (after evs)) = requests (after evs)
         \<and> map_option l_at (loops (run (replicate m (CountdownTick k)) (after evs)) k)
             = Some AwaitCountdown
         \<and> countdown (getJob (run (replicate m (CountdownTick k)) (after evs)) (l_accountId L))
             = countdown (getJob (after evs) (l_accountId L)) - int m
         \<and> nextUserEmail (getJob (run (replicate m (CountdownTick k)) (after evs)) (l_accountId L))
             = nextUserEmail (getJob (after evs) (l_accountId L)))
      \<and> seen (l_accountId L) (after evs)
           (run (replicate (nat (countdown (getJob (after evs) (l_accountId L)))) (CountdownTick k))
              (after evs))
          = remaining (countdown (getJob (after evs) (l_accountId L)))
              (nextUserEmail (getJob (after evs) (l_accountId L)))
      \<and> requests
           (run (replicate (nat (countdown (getJob (after evs) (l_accountId L)))) (CountdownTick k))
              (after evs))
          = requests (after evs) @ [request_for L (l_i L)]
      \<and> map_option l_at (loops
           (run (replicate (nat (countdown (getJob (after evs) (l_accountId L)))) (CountdownTick k))
              (after evs)) k) = Some AwaitFetch
      \<and> countdown (getJob
           (run (replicate (nat (countdown (getJob (after evs) (l_accountId L)))) (CountdownTick k))
              (after evs)) (l_accountId L)) = 0
      \<and> nextUserEmail (getJob
           (run (replicate (nat (countdown (getJob (after evs) (l_accountId L)))) (CountdownTick k))
              (after evs)) (l_accountId L)) = None)
   \<and> (users \<noteq> [] \<longrightarrow>
        requests (startImportJob a users st)
          = requests st @ [\<lparr> q_user = users ! 0, q_accountId = a,
                              q_sendInvites = sendInvites (getJob st a) \<rparr>]
        \<and> countdown (getJob (startImportJob a users st) a) = 0
        \<and> nextUserEmail (getJob (startImportJob a users st) a) = None)"
proof -
  let ?st = "after evs"
  note I = Inv_after[of evs]
  have 1: "\<forall>k L r out. loops ?st k = Some L \<and> l_at L = AwaitFetch
        \<and> jobRefs ?st (l_accountId L) = Some r \<and> \<not> ref_isStopped r \<and> \<not> ref_isPaused r
        \<and> l_i L + 1 < length (l_users L) \<longrightarrow>
      (0 < delayInSeconds (l_settings L) \<longrightarrow>
         map_option l_at (loops (step (FetchDone k out) ?st) k) = Some AwaitCountdown
         \<and> map_option l_i (loops (step (FetchDone k out) ?st) k) = Some (l_i L + 1)
         \<and> requests (step (FetchDone k out) ?st) = requests ?st
         \<and> countdown (getJob (step (FetchDone k out) ?st) (l_accountId L))
             = delayInSeconds (l_settings L)
         \<and> nextUserEmail (getJob (step (FetchDone k out) ?st) (l_accountId L))
             = Some (email (l_users L ! (l_i L + 1))))
      \<and> (delayInSeconds (l_settings L) \<le> 0 \<longrightarrow>
         map_option l_at (loops (step (FetchDone k out) ?st) k) = Some AwaitFetch
         \<and> requests (step (FetchDone k out) ?st)
             = requests ?st @ [request_for L (l_i L + 1)]
         \<and> countdown (getJob (step (FetchDone k out) ?st) (l_accountId L))
             = countdown (getJob ?st (l_accountId L))
         \<and> nextUserEmail (getJob (step (FetchDone k out) ?st) (l_accountId L))
             = nextUserEmail (getJob ?st (l_accountId L)))"
  proof (intro allI impI)
    fix k L r out
    assume h: "loops ?st k = Some L \<and> l_at L = AwaitFetch
        \<and> jobRefs ?st (l_accountId L) = Some r \<and> \<not> ref_isStopped r \<and> \<not> ref_isPaused r
        \<and> l_i L + 1 < length (l_users L)"
    obtain L2 st1 where x: "l_accountId L2 = l_accountId L" "l_users L2 = l_users L"
      "l_settings L2 = l_settings L" "l_i L2 = l_i L + 1"
      "requests st1 = requests ?st" "loops st1 = loops ?st"
      "countdown (getJob st1 (l_accountId L)) = countdown (getJob ?st (l_accountId L))"
      "nextUserEmail (getJob st1 (l_accountId L)) = nextUserEmail (getJob ?st (l_accountId L))"
      "step (FetchDone k out) ?st =
          (if 0 < delayInSeconds (l_settings L) then
             suspend k L2 AwaitCountdown
               (updateJobState (l_accountId L)
                  (no_updates\<lparr> p_nextUserEmail := Some (Some (email (l_users L ! (l_i L + 1)))),
                               p_countdown := Some (delayInSeconds (l_settings L)) \<rparr>) st1)
           else issue_fetch k L2 (l_users L ! (l_i L + 1)) st1)"
      using enter_via_fetch[OF I, of k L r out] h by blast
    show "(0 < delayInSeconds (l_settings L) \<longrightarrow>
         map_option l_at (loops (step (FetchDone k out) ?st) k) = Some AwaitCountdown
         \<and> map_option l_i (loops (step (FetchDone k out) ?st) k) = Some (l_i L + 1)
         \<and> requests (step (FetchDone k out) ?st) = requests ?st
         \<and> countdown (getJob (step (FetchDone k out) ?st) (l_accountId L))
             = delayInSeconds (l_settings L)
         \<and> nextUserEmail (getJob (step (FetchDone k out) ?st) (l_accountId L))
             = Some (email (l_users L ! (l_i L + 1))))
      \<and> (delayInSeconds (l_settings L) \<le> 0 \<longrightarrow>
         map_option l_at (loops (step (FetchDone k out) ?st) k) = Some AwaitFetch
         \<and> requests (step (FetchDone k out) ?st)
             = requests ?st @ [request_for L (l_i L + 1)]
         \<and> countdown (getJob (step (FetchDone k out) ?st) (l_accountId L))
             = countdown (getJob ?st (l_accountId L))
         \<and> nextUserEmail (getJob (step (FetchDone k out) ?st) (l_accountId L))
             = nextUserEmail (getJob ?st (l_accountId L)))"
      unfolding x(9) using x(1-8) by (simp add: request_for_def)
  qed
  have 2: "\<forall>k L r. loops ?st k = Some L \<and> l_at L = AwaitPoll
        \<and> jobRefs ?st (l_accountId L) = Some r \<and> \<not> ref_isStopped r \<and> \<not> ref_isPaused r
        \<and> 0 < l_i L \<and> 0 < delayInSeconds (l_settings L) \<longrightarrow>
         map_option l_at (loops (step (PollWake k) ?st) k) = Some AwaitCountdown
         \<and> requests (step (PollWake k) ?st) = requests ?st
         \<and> countdown (getJob (step (PollWake k) ?st) (l_accountId L))
             = delayInSeconds (l_settings L)
         \<and> nextUserEmail (getJob (step (PollWake k) ?st) (l_accountId L))
             = Some (email (l_users L ! l_i L))"
  proof (intro allI impI)
    fix k L r
    assume h: "loops ?st k = Some L \<and> l_at L = AwaitPoll
        \<and> jobRefs ?st (l_accountId L) = Some r \<and> \<not> ref_isStopped r \<and> \<not> ref_isPaused r
        \<and> 0 < l_i L \<and> 0 < delayInSeconds (l_settings L)"
    show "map_option l_at (loops (step (PollWake k) ?st) k) = Some AwaitCountdown
         \<and> requests (step (PollWake k) ?st) = requests ?st
         \<and> countdown (getJob (step (PollWake k) ?st) (l_accountId L))
             = delayInSeconds (l_settings L)
         \<and> nextUserEmail (getJob (step (PollWake k) ?st) (l_accountId L))
             = Some (email (l_users L ! l_i L))"
      using enter_via_poll[OF I, of k L r] h by simp
  qed
  have 3: "\<forall>k L. loops ?st k = Some L \<and> l_at L = AwaitCountdown
        \<and> 1 \<le> countdown (getJob ?st (l_accountId L)) \<longrightarrow>
      (\<forall>m. int m < countdown (getJob ?st (l_accountId L)) \<longrightarrow>
         requests (run (replicate m (CountdownTick k)) ?st) = requests ?st
         \<and> map_option l_at (loops (run (replicate m (CountdownTick k)) ?st) k)
             = Some AwaitCountdown
         \<and> countdown (getJob (run (replicate m (CountdownTick k)) ?st) (l_accountId L))
             = countdown (getJob ?st (l_accountId L)) - int m
         \<and> nextUserEmail (getJob (run (replicate m (CountdownTick k)) ?st) (l_accountId L))
             = nextUserEmail (getJob ?st (l_accountId L)))
      \<and> seen (l_accountId L) ?st
           (run (replicate (nat (countdown (getJob ?st (l_accountId L)))) (CountdownTick k)) ?st)
          = remaining (countdown (getJob ?st (l_accountId L)))
              (nextUserEmail (getJob ?st (l_accountId L)))
      \<and> requests
           (run (replicate (nat (countdown (getJob ?st (l_accountId L)))) (CountdownTick k)) ?st)
          = requests ?st @ [request_for L (l_i L)]
      \<and> map_option l_at (loops
           (run (replicate (nat (countdown (getJob ?st (l_accountId L)))) (CountdownTick k)) ?st) k)
          = Some AwaitFetch
      \<and> countdown (getJob
           (run (replicate (nat (countdown (getJob ?st (l_accountId L)))) (CountdownTick k)) ?st)
           (l_accountId L)) = 0
      \<and> nextUserEmail (getJob
           (run (replicate (nat (countdown (getJob ?st (l_accountId L)))) (CountdownTick k)) ?st)
           (l_accountId L)) = None"
  proof (intro allI impI)
    fix k L
    assume h: "loops ?st k = Some L \<and> l_at L = AwaitCountdown
        \<and> 1 \<le> countdown (getJob ?st (l_accountId L))"
    let ?a = "l_accountId L"
    obtain r' j where x: "jobRefs ?st ?a = Some r'" "importJobs ?st ?a = Some j"
      "tracks j L" "good j" "from_input L"
      using Inv_active[OF I, of k L] h by auto
    have gj: "getJob ?st ?a = j" using x(2) by (simp add: getJob_def)
    have l: "loops ?st k = Some L" "l_at L = AwaitCountdown" using h by simp_all
    have c: "1 \<le> countdown j" using h gj by simp
    have A: "\<forall>m. int m < countdown j \<longrightarrow>
         requests (run (replicate m (CountdownTick k)) ?st) = requests ?st
         \<and> map_option l_at (loops (run (replicate m (CountdownTick k)) ?st) k)
             = Some AwaitCountdown
         \<and> countdown (getJob (run (replicate m (CountdownTick k)) ?st) ?a)
             = countdown j - int m
         \<and> nextUserEmail (getJob (run (replicate m (CountdownTick k)) ?st) ?a)
             = nextUserEmail j"
    proof (intro allI impI)
      fix m assume m: "int m < countdown j"
      show "requests (run (replicate m (CountdownTick k)) ?st) = requests ?st
         \<and> map_option l_at (loops (run (replicate m (CountdownTick k)) ?st) k)
             = Some AwaitCountdown
         \<and> countdown (getJob (run (replicate m (CountdownTick k)) ?st) ?a)
             = countdown j - int m
         \<and> nextUserEmail (getJob (run (replicate m (CountdownTick k)) ?st) ?a)
             = nextUserEmail j"
        unfolding ticks_before_zero[OF I l x(2) m] using l by (simp add: getJob_def)
    qed
    have n: "int (nat (countdown j)) = countdown j" using c by simp
    have B: "seen ?a ?st (run (replicate (nat (countdown j)) (CountdownTick k)) ?st)
          = remaining (countdown j) (nextUserEmail j)"
    proof -
      let ?n = "nat (countdown j)"
      have cl: "map (\<lambda>i. countdown j - int i) [1..<Suc ?n] = rev (map int [0..<?n])"
        using count_down_list[of ?n] n by simp
      have "map (\<lambda>i. (countdown j - int i, nextUserEmail j)) [1..<Suc ?n]
          = map (\<lambda>x. (x, nextUserEmail j)) (map (\<lambda>i. countdown j - int i) [1..<Suc ?n])"
        by (simp add: comp_def del: upt_Suc)
      then have m: "map (\<lambda>i. (countdown j - int i, nextUserEmail j)) [1..<Suc ?n]
          = map (\<lambda>x. (x, nextUserEmail j)) (rev (map int [0..<?n]))"
        unfolding cl .
      show ?thesis
        unfolding ticks_to_zero[OF I l x(2) c] seen_def remaining_def
        using m by (simp add: filter_map comp_def del: upt_Suc)
    qed
    have C: "requests (run (replicate (nat (countdown j)) (CountdownTick k)) ?st)
          = requests ?st @ [request_for L (l_i L)]
      \<and> map_option l_at (loops (run (replicate (nat (countdown j)) (CountdownTick k)) ?st) k)
          = Some AwaitFetch
      \<and> countdown (getJob (run (replicate (nat (countdown j)) (CountdownTick k)) ?st) ?a) = 0
      \<and> nextUserEmail (getJob (run (replicate (nat (countdown j)) (CountdownTick k)) ?st) ?a)
          = None"
      unfolding ticks_to_zero[OF I l x(2) c] by (simp add: getJob_def)
    show "(\<forall>m. int m < countdown (getJob ?st ?a) \<longrightarrow>
         requests (run (replicate m (CountdownTick k)) ?st) = requests ?st
         \<and> map_option l_at (loops (run (replicate m (CountdownTick k)) ?st) k)
             = Some AwaitCountdown
         \<and> countdown (getJob (run (replicate m (CountdownTick k)) ?st) ?a)
             = countdown (getJob ?st ?a) - int m
         \<and> nextUserEmail (getJob (run (replicate m (CountdownTick k)) ?st) ?a)
             = nextUserEmail (getJob ?st ?a))
      \<and> seen ?a ?st
           (run (replicate (nat (countdown (getJob ?st ?a))) (CountdownTick k)) ?st)
          = remaining (countdown (getJob ?st ?a)) (nextUserEmail (getJob ?st ?a))
      \<and> requests
           (run (replicate (nat (countdown (getJob ?st ?a))) (CountdownTick k)) ?st)
          = requests ?st @ [request_for L (l_i L)]
      \<and> map_option l_at (loops
           (run (replicate (nat (countdown (getJob ?st ?a))) (CountdownTick k)) ?st) k)
          = Some AwaitFetch
      \<and> countdown (getJob
           (run (replicate (nat (countdown (getJob ?st ?a))) (CountdownTick k)) ?st) ?a) = 0
      \<and> nextUserEmail (getJob
           (run (replicate (nat (countdown (getJob ?st ?a))) (CountdownTick k)) ?st) ?a) = None"
      unfolding gj using A B C by blast
  qed
  have 4: "users \<noteq> [] \<longrightarrow>
        requests (startImportJob a users st)
          = requests st @ [\<lparr> q_user = users ! 0, q_accountId = a,
                              q_sendInvites = sendInvites (getJob st a) \<rparr>]
        \<and> countdown (getJob (startImportJob a users st) a) = 0
        \<and> nextUserEmail (getJob (startImportJob a users st) a) = None"
    using start_first_request[of users a st] by blast
  show ?thesis using 1 2 3 4 by blast
qed


lemma counting_down_after:
  "counting_down = after [Click ''acct'' (SetUserEmails two_lines),
      Click ''acct'' (SetDelayInSeconds 2), Click ''acct'' ClickStartImport,
      FetchDone 0 invited]"
  by (simp add: counting_down_def started_def run_after)

theorem countdown_before_next_record_witness:
  "map_option l_at (loops (started 2) 0) = Some AwaitFetch
   \<and> length (requests (started 2)) = 1
   \<and> map_option l_at (loops counting_down 0) = Some AwaitCountdown
   \<and> countdown (getJob counting_down ''acct'') = 2
   \<and> nextUserEmail (getJob counting_down ''acct'') = Some ''b@x.com''
   \<and> requests counting_down = requests (started 2)
   \<and> requests (run (replicate 1 (CountdownTick 0)) counting_down) = requests counting_down
   \<and> countdown (getJob (run (replicate 1 (CountdownTick 0)) counting_down) ''acct'') = 1
   \<and> seen ''acct'' counting_down (run (replicate 2 (CountdownTick 0)) counting_down)
       = [(1, Some ''b@x.com''), (0, Some ''b@x.com''), (0, None)]
   \<and> length (requests (run (replicate 2 (CountdownTick 0)) counting_down)) = 2
   \<and> countdown (getJob (run (replicate 2 (CountdownTick 0)) counting_down) ''acct'') = 0
   \<and> nextUserEmail (getJob (run (replicate 2 (CountdownTick 0)) counting_down) ''acct'') = None"
proof -
  let ?L = "the (loops counting_down 0)"
  let ?M = "the (loops (started 2) 0)"
  let ?q = "the (jobRefs (started 2) ''acct'')"
  have c: "map_option l_at (loops (started 2) 0) = Some AwaitFetch"
    "length (requests (started 2)) = 1"
    "map_option l_at (loops counting_down 0) = Some AwaitCountdown"
    "countdown (getJob counting_down ''acct'') = 2"
    "nextUserEmail (getJob counting_down ''acct'') = Some ''b@x.com''"
    "l_accountId ?L = ''acct''" "l_accountId ?M = ''acct''"
    "jobRefs (started 2) ''acct'' \<noteq> None" "\<not> ref_isStopped ?q" "\<not> ref_isPaused ?q"
    "l_i ?M + 1 < length (l_users ?M)" "0 < delayInSeconds (l_settings ?M)"
    "length (requests counting_down) = 1"
    by code_simp+
  have h0: "loops (started 2) 0 = Some ?M \<and> l_at ?M = AwaitFetch
        \<and> jobRefs (started 2) (l_accountId ?M) = Some ?q \<and> \<not> ref_isStopped ?q
        \<and> \<not> ref_isPaused ?q \<and> l_i ?M + 1 < length (l_users ?M)"
    using c(1,7,8,9,10,11) by auto
  have a: "requests counting_down = requests (started 2)"
    using h0 c(12) countdown_before_next_record[where evs = "[Click ''acct'' (SetUserEmails two_lines),
      Click ''acct'' (SetDelayInSeconds 2), Click ''acct'' ClickStartImport]"]
    unfolding started_after[symmetric] counting_down_def run_def by fastforce
  have h: "loops counting_down 0 = Some ?L \<and> l_at ?L = AwaitCountdown
      \<and> 1 \<le> countdown (getJob counting_down (l_accountId ?L))"
    using c(3,4,6) by auto
  note T = countdown_before_next_record[where evs = "[Click ''acct'' (SetUserEmails two_lines),
      Click ''acct'' (SetDelayInSeconds 2), Click ''acct'' ClickStartImport,
      FetchDone 0 invited]", unfolded counting_down_after[symmetric]]
  have t: "(\<forall>m. int m < countdown (getJob counting_down (l_accountId ?L)) \<longrightarrow>
         requests (run (replicate m (CountdownTick 0)) counting_down) = requests counting_down
         \<and> countdown (getJob (run (replicate m (CountdownTick 0)) counting_down) (l_accountId ?L))
             = countdown (getJob counting_down (l_accountId ?L)) - int m)
      \<and> seen (l_accountId ?L) counting_down
           (run (replicate (nat (countdown (getJob counting_down (l_accountId ?L)))) (CountdownTick 0))
              counting_down)
          = remaining (countdown (getJob counting_down (l_accountId ?L)))
              (nextUserEmail (getJob counting_down (l_accountId ?L)))
      \<and> requests
           (run (replicate (nat (countdown (getJob counting_down (l_accountId ?L)))) (CountdownTick 0))
              counting_down)
          = requests counting_down @ [request_for ?L (l_i ?L)]
      \<and> countdown (getJob
           (run (replicate (nat (countdown (getJob counting_down (l_accountId ?L)))) (CountdownTick 0))
              counting_down) (l_accountId ?L)) = 0
      \<and> nextUserEmail (getJob
           (run (replicate (nat (countdown (getJob counting_down (l_accountId ?L)))) (CountdownTick 0))
              counting_down) (l_accountId ?L)) = None"
    using h T by blast
  have n2: "nat 2 = (2::nat)" by simp
  have r: "remaining 2 (Some ''b@x.com'') = [(1, Some ''b@x.com''), (0, Some ''b@x.com''), (0, None)]"
    by (simp add: remaining_def numeral_2_eq_2)
  have one: "int 1 < countdown (getJob counting_down (l_accountId ?L))" using c by simp
  show ?thesis
    using t[THEN conjunct1, rule_format, OF one] t[THEN conjunct2] a c r
    by (simp add: n2)
qed

section \<open>Pause and resume, as the controller has them\<close>







section \<open>Settings are read when the run starts\<close>

subsection \<open>A change of the stored configuration does not reach the run\<close>

lemma same_run_refl: "same_run a s s"
  by (simp add: same_run_def)

lemma same_run_sel:
  assumes "same_run a s t"
  shows "loops s = loops t" "nextLoop s = nextLoop t" "jobRefs s = jobRefs t"
    "intervals s = intervals t" "nextTimer s = nextTimer t" "requests s = requests t"
    "toasts s = toasts t" "crashed s = crashed t"
  using assms by (simp_all add: same_run_def)

lemma same_run_other: "same_run a s t \<Longrightarrow> b \<noteq> a \<Longrightarrow> importJobs s b = importJobs t b"
  by (simp add: same_run_def)

lemma same_run_job:
  "same_run a s t \<Longrightarrow> map_option run_fields (importJobs s b) = map_option run_fields (importJobs t b)"
  by (cases "b = a") (simp_all add: same_run_def)

lemma same_run_getJob: "same_run a s t \<Longrightarrow> run_fields (getJob s b) = run_fields (getJob t b)"
  using same_run_job[of a s t b]
  by (cases "importJobs s b"; cases "importJobs t b") (simp_all add: getJob_def)

lemma same_run_getJob_other: "same_run a s t \<Longrightarrow> b \<noteq> a \<Longrightarrow> getJob s b = getJob t b"
  by (simp add: getJob_def same_run_other)

lemma same_run_status:
  assumes "same_run a s t"
  shows "status (getJob s b) = status (getJob t b)"
  using same_run_getJob[OF assms, of b] by (simp add: run_fields_def)

lemma same_run_crash: "same_run a s t \<Longrightarrow> same_run a (s\<lparr> crashed := True \<rparr>) (t\<lparr> crashed := True \<rparr>)"
  by (simp add: same_run_def)

lemma same_run_publish:
  assumes "same_run a s t" "run_fields j = run_fields j'" "b \<noteq> a \<Longrightarrow> j = j'"
  shows "same_run a (publish b j s) (publish b j' t)"
  using assms by (auto simp: same_run_def publish_def)

lemma run_fields_spread:
  "run_fields j = run_fields j' \<Longrightarrow> run_fields (spread j u) = run_fields (spread j' u)"
  by (simp add: run_fields_def spread_def)

lemma same_run_updateJobState:
  assumes "same_run a s t"
  shows "same_run a (updateJobState b u s) (updateJobState b u t)"
  unfolding updateJobState_def
  using assms
  by (intro same_run_publish run_fields_spread same_run_getJob)
     (simp_all add: same_run_getJob_other)

lemma same_run_modifyJob:
  assumes "same_run a s t"
    "\<And>j j'. run_fields j = run_fields j' \<Longrightarrow> run_fields (f j) = run_fields (f j')"
  shows "same_run a (modifyJob b f s) (modifyJob b f t)"
proof (cases "importJobs s b")
  case None
  with same_run_job[OF assms(1), of b] have "importJobs t b = None" by simp
  with None assms(1) show ?thesis by (simp add: modifyJob_def same_run_crash)
next
  case (Some j)
  with same_run_job[OF assms(1), of b]
  obtain j' where j': "importJobs t b = Some j'" "run_fields j = run_fields j'"
    by (cases "importJobs t b") auto
  have eq: "b \<noteq> a \<Longrightarrow> j = j'"
    using same_run_other[OF assms(1), of b] Some j'(1) by simp
  have "same_run a (publish b (f j) s) (publish b (f j') t)"
  proof (rule same_run_publish)
    show "same_run a s t" by (rule assms(1))
    show "run_fields (f j) = run_fields (f j')" using j'(2) by (rule assms(2))
    show "f j = f j'" if "b \<noteq> a" using eq[OF that] by simp
  qed
  with Some j'(1) show ?thesis by (simp add: modifyJob_def)
qed

lemma same_run_toast: "same_run a s t \<Longrightarrow> same_run a (toast x s) (toast x t)"
  by (simp add: same_run_def toast_def)

lemma same_run_clearTimer: "same_run a s t \<Longrightarrow> same_run a (clearTimer b s) (clearTimer b t)"
  by (auto simp: same_run_def clearTimer_def split: option.splits)

lemma same_run_setTimer: "same_run a s t \<Longrightarrow> same_run a (setTimer b s) (setTimer b t)"
  by (auto simp: same_run_def setTimer_def split: option.splits)

lemma same_run_suspend: "same_run a s t \<Longrightarrow> same_run a (suspend k L x s) (suspend k L x t)"
  by (simp add: same_run_def suspend_def)

lemma same_run_requests:
  "same_run a s t \<Longrightarrow>
     same_run a (s\<lparr> requests := requests s @ q \<rparr>) (t\<lparr> requests := requests t @ q \<rparr>)"
  by (simp add: same_run_def)

lemma same_run_issue_fetch:
  "same_run a s t \<Longrightarrow> same_run a (issue_fetch k L x s) (issue_fetch k L x t)"
  unfolding issue_fetch_def by (intro same_run_suspend same_run_requests)

lemma same_run_refs:
  "same_run a s t \<Longrightarrow> same_run a (s\<lparr> jobRefs := r \<rparr>) (t\<lparr> jobRefs := r \<rparr>)"
  by (simp add: same_run_def)

lemma same_run_after_loop:
  assumes "same_run a s t"
  shows "same_run a (after_loop k L s) (after_loop k L t)"
  using assms same_run_sel(3)[OF assms]
  by (auto simp: after_loop_def Let_def split: option.splits
      intro!: same_run_crash same_run_suspend same_run_toast same_run_updateJobState
        same_run_clearTimer)

lemma same_run_after_pause:
  assumes "same_run a s t"
  shows "same_run a (after_pause k L s) (after_pause k L t)"
  using assms same_run_sel(3)[OF assms]
  by (auto simp: after_pause_def Let_def split: option.splits
      intro!: same_run_crash same_run_suspend same_run_toast same_run_updateJobState
        same_run_after_loop same_run_issue_fetch)

lemma same_run_loop_head:
  assumes "same_run a s t"
  shows "same_run a (loop_head k L s) (loop_head k L t)"
  using assms same_run_sel(3)[OF assms]
  by (auto simp: loop_head_def Let_def split: option.splits
      intro!: same_run_crash same_run_suspend same_run_toast
        same_run_after_loop same_run_after_pause)

lemma same_run_poll_wake:
  assumes "same_run a s t"
  shows "same_run a (poll_wake k L s) (poll_wake k L t)"
  using assms same_run_sel(3)[OF assms]
  by (auto simp: poll_wake_def Let_def split: option.splits
      intro!: same_run_crash same_run_suspend same_run_after_pause)

lemma same_run_countdown_tick:
  assumes "same_run a s t"
  shows "same_run a (countdown_tick k L s) (countdown_tick k L t)"
proof (cases "importJobs s (l_accountId L)")
  case None
  with same_run_job[OF assms, of "l_accountId L"] have "importJobs t (l_accountId L) = None"
    by simp
  with None assms show ?thesis by (simp add: countdown_tick_def same_run_crash)
next
  case (Some j)
  with same_run_job[OF assms, of "l_accountId L"]
  obtain j' where j': "importJobs t (l_accountId L) = Some j'" "run_fields j = run_fields j'"
    by (cases "importJobs t (l_accountId L)") auto
  have eq: "l_accountId L \<noteq> a \<Longrightarrow> j = j'"
    using same_run_other[OF assms, of "l_accountId L"] Some j'(1) by simp
  from j'(2) have c: "countdown j = countdown j'" by (simp add: run_fields_def)
  have p: "same_run a (publish (l_accountId L) (j\<lparr> countdown := countdown j - 1 \<rparr>) s)
             (publish (l_accountId L) (j'\<lparr> countdown := countdown j' - 1 \<rparr>) t)"
    using assms j'(2) eq by (intro same_run_publish) (auto simp: run_fields_def)
  show ?thesis
    using Some j'(1) c p
    by (auto simp: countdown_tick_def Let_def split: option.splits
        intro!: same_run_crash same_run_issue_fetch same_run_updateJobState)
qed

lemma same_run_fetch_done:
  assumes "same_run a s t"
  shows "same_run a (fetch_done k L out s) (fetch_done k L out t)"
  using assms
  by (auto simp: fetch_done_def Let_def record_result_def run_fields_def split: option.splits
      intro!: same_run_crash same_run_loop_head same_run_modifyJob)

lemma same_run_elapsed_tick:
  assumes "same_run a s t"
  shows "same_run a (elapsed_tick n s) (elapsed_tick n t)"
  using assms same_run_sel(4)[OF assms]
  by (auto simp: elapsed_tick_def run_fields_def split: option.splits
      intro!: same_run_modifyJob)

lemma same_run_pause:
  assumes "same_run a s t"
  shows "same_run a (pauseImportJob b s) (pauseImportJob b t)"
  using assms same_run_sel(3)[OF assms]
  by (auto simp: pauseImportJob_def split: option.splits
      intro!: same_run_clearTimer same_run_updateJobState same_run_refs)

lemma same_run_resume:
  assumes "same_run a s t"
  shows "same_run a (resumeImportJob b s) (resumeImportJob b t)"
  using assms same_run_sel(3)[OF assms]
  by (auto simp: resumeImportJob_def split: option.splits
      intro!: same_run_setTimer same_run_updateJobState same_run_refs)

lemma same_run_stop:
  assumes "same_run a s t"
  shows "same_run a (stopImportJob b s) (stopImportJob b t)"
  using assms same_run_sel(3)[OF assms]
  by (auto simp: stopImportJob_def split: option.splits
      intro!: same_run_clearTimer same_run_refs)

lemma same_run_loops:
  "same_run a s t \<Longrightarrow>
     same_run a (s\<lparr> loops := l, nextLoop := n \<rparr>) (t\<lparr> loops := l, nextLoop := n \<rparr>)"
  by (simp add: same_run_def)

lemma same_run_start:
  assumes "same_run a s t" "b \<noteq> a"
  shows "same_run a (startImportJob b users s) (startImportJob b users t)"
proof -
  note e = same_run_sel[OF assms(1)] same_run_getJob_other[OF assms]
  let ?r = "(jobRefs t)(b \<mapsto> (or_else (jobRefs t b)
               \<lparr> ref_isPaused = False, ref_isStopped = False, ref_timer = None \<rparr>)
               \<lparr> ref_isPaused := False, ref_isStopped := False \<rparr>)"
  let ?u = "no_updates\<lparr> p_status := Some Running, p_results := Some [],
               p_progress := Some 0, p_timeElapsed := Some 0,
               p_successCount := Some 0, p_failCount := Some 0,
               p_showStats := Some True, p_countdown := Some 0,
               p_nextUserEmail := Some None \<rparr>"
  have 3: "same_run a (setTimer b (updateJobState b ?u (s\<lparr> jobRefs := ?r \<rparr>)))
             (setTimer b (updateJobState b ?u (t\<lparr> jobRefs := ?r \<rparr>)))"
    using assms(1) by (intro same_run_setTimer same_run_updateJobState same_run_refs)
  show ?thesis
    unfolding startImportJob_def Let_def e
    using 3 same_run_sel(1,2)[OF 3]
    by (auto intro!: same_run_loop_head same_run_loops)
qed

lemma same_run_handleStartImport:
  assumes "same_run a s t" "b \<noteq> a"
  shows "same_run a (handleStartImport (Some b) s) (handleStartImport (Some b) t)"
  using assms same_run_getJob_other[OF assms]
  by (auto simp: handleStartImport_def Let_def intro!: same_run_toast same_run_start)

lemma same_run_click:
  assumes "same_run a s t" "b \<noteq> a \<or> act \<noteq> ClickStartImport"
  shows "same_run a (click b act s) (click b act t)"
proof -
  have st: "status (getJob s b) = status (getJob t b)"
    using assms(1) by (rule same_run_status)
  show ?thesis
  proof (cases act)
    case ClickStartImport
    with assms(2) have ne: "b \<noteq> a" by simp
    from ClickStartImport same_run_getJob_other[OF assms(1) ne] assms(1) ne show ?thesis
      by (auto simp: click_def Let_def intro!: same_run_handleStartImport)
  qed (use assms(1) st in \<open>auto simp: click_def Let_def updateJobSettings_def start_panel_def
         isJobRunning_def handleClearAll_def clearImportJob_def
         intro!: same_run_updateJobState same_run_pause same_run_resume same_run_stop
           same_run_toast\<close>)
qed

lemma same_run_resume_at:
  assumes "same_run a s t" "\<And>L. same_run a (f L s) (f L t)"
  shows "same_run a (resume_at k x f s) (resume_at k x f t)"
  using assms same_run_sel(1)[OF assms(1)]
  by (auto simp: resume_at_def split: option.splits)

lemma same_run_step:
  assumes "same_run a s t" "e \<noteq> Click a ClickStartImport"
  shows "same_run a (step e s) (step e t)"
  using assms
  by (cases e)
     (auto intro!: same_run_click same_run_elapsed_tick same_run_resume_at
        same_run_poll_wake same_run_countdown_tick same_run_fetch_done)

lemma same_run_run:
  assumes "same_run a s t" "Click a ClickStartImport \<notin> set evs"
  shows "same_run a (run evs s) (run evs t)"
  using assms
proof (induction evs arbitrary: s t)
  case Nil
  then show ?case by (simp add: run_def)
next
  case (Cons e evs)
  from Cons.prems have "same_run a (step e s) (step e t)"
    by (intro same_run_step) auto
  with Cons.prems(2) have "same_run a (run evs (step e s)) (run evs (step e t))"
    by (intro Cons.IH) auto
  then show ?case by (simp add: run_def)
qed

lemma same_run_settings:
  assumes "config_only u" "importJobs st a \<noteq> None"
  shows "same_run a (updateJobSettings a u st) st"
  using assms
  by (auto simp: same_run_def updateJobSettings_def updateJobState_def publish_def getJob_def
      config_only_def run_fields_def spread_def)


subsection \<open>What an invocation has captured\<close>

lemma captured_loops: "loops s = loops t \<Longrightarrow> captured s = captured t"
  by (simp add: captured_def fun_eq_iff)

lemma captured_sel [simp]:
  "captured (updateJobState a u st) = captured st" "captured (publish a j st) = captured st"
  "captured (toast x st) = captured st" "captured (clearTimer a st) = captured st"
  "captured (setTimer a st) = captured st" "captured (st\<lparr> crashed := c \<rparr>) = captured st"
  "captured (st\<lparr> jobRefs := r \<rparr>) = captured st"
  by (simp_all add: captured_def fun_eq_iff)

lemma captured_modifyJob [simp]: "captured (modifyJob a f st) = captured st"
  by (simp add: modifyJob_def split: option.splits)

lemma captured_suspend:
  "captured st k = Some (l_settings L) \<Longrightarrow> captured (suspend k L x st) = captured st"
  by (auto simp: captured_def fun_eq_iff)

lemma captured_issue_fetch:
  "captured st k = Some (l_settings L) \<Longrightarrow> captured (issue_fetch k L x st) = captured st"
  by (auto simp: captured_def fun_eq_iff)

lemma captured_after_loop:
  "captured st k = Some (l_settings L) \<Longrightarrow> captured (after_loop k L st) = captured st"
  by (simp add: after_loop_def Let_def captured_suspend split: option.splits)

lemma captured_after_pause:
  "captured st k = Some (l_settings L) \<Longrightarrow> captured (after_pause k L st) = captured st"
  by (simp add: after_pause_def captured_suspend captured_issue_fetch captured_after_loop
      split: option.splits)

lemma captured_loop_head:
  "captured st k = Some (l_settings L) \<Longrightarrow> captured (loop_head k L st) = captured st"
  by (simp add: loop_head_def captured_suspend captured_after_pause captured_after_loop
      split: option.splits)

lemma captured_poll_wake:
  "captured st k = Some (l_settings L) \<Longrightarrow> captured (poll_wake k L st) = captured st"
  by (simp add: poll_wake_def captured_suspend captured_after_pause split: option.splits)

lemma captured_countdown_tick:
  "captured st k = Some (l_settings L) \<Longrightarrow> captured (countdown_tick k L st) = captured st"
  by (simp add: countdown_tick_def Let_def captured_issue_fetch split: option.splits)

lemma captured_fetch_done:
  "captured st k = Some (l_settings L) \<Longrightarrow> captured (fetch_done k L out st) = captured st"
  by (simp add: fetch_done_def Let_def captured_loop_head split: option.splits)

lemma captured_elapsed_tick [simp]: "captured (elapsed_tick n st) = captured st"
  by (simp add: elapsed_tick_def split: option.splits)

lemma captured_controls [simp]:
  "captured (pauseImportJob a st) = captured st" "captured (resumeImportJob a st) = captured st"
  "captured (stopImportJob a st) = captured st" "captured (clearImportJob a st) = captured st"
  "captured (updateJobSettings a u st) = captured st"
  by (simp_all add: pauseImportJob_def resumeImportJob_def stopImportJob_def clearImportJob_def
      updateJobSettings_def split: option.splits)

lemma captured_start:
  "captured (startImportJob a users st) = (captured st)(nextLoop st \<mapsto> getJob st a)"
  unfolding startImportJob_def Let_def
  by (subst captured_loop_head) (simp_all add: captured_def fun_eq_iff)

lemma captured_click:
  assumes "captured st k = Some c" "k < nextLoop st"
  shows "captured (click a act st) k = Some c"
  using assms
  by (cases act)
     (simp_all add: click_def Let_def handleStartImport_def handleClearAll_def captured_start)

lemma captured_resume_at:
  assumes "\<And>L. captured st k = Some (l_settings L) \<Longrightarrow> captured (f L st) = captured st"
  shows "captured (resume_at k x f st) = captured st"
proof (cases "loops st k")
  case None
  then show ?thesis by (simp add: resume_at_def)
next
  case (Some L)
  then have "captured st k = Some (l_settings L)" by (simp add: captured_def)
  from assms[OF this] Some show ?thesis by (simp add: resume_at_def)
qed

lemma captured_step:
  assumes "Inv st" "captured st k = Some c"
  shows "captured (step e st) k = Some c"
proof -
  obtain L where "loops st k = Some L" using assms(2) by (auto simp: captured_def)
  then have "k < nextLoop st" using Inv'_parts(2)[OF Inv_False[OF assms(1)]] by simp
  with assms(2) show ?thesis
    by (cases e)
       (simp_all add: captured_click captured_resume_at captured_poll_wake
          captured_countdown_tick captured_fetch_done)
qed

lemma captured_run:
  assumes "Inv st" "captured st k = Some c"
  shows "captured (run evs st) k = Some c"
  using assms
proof (induction evs arbitrary: st)
  case Nil
  then show ?case by (simp add: run_def)
next
  case (Cons e evs)
  from Cons.prems have "captured (run evs (step e st)) k = Some c"
    by (intro Cons.IH Inv_step captured_step)
  then show ?case by (simp add: run_def)
qed

lemma stored_settings:
  "userEmails (getJob (updateJobSettings a u st) a) = or_else (p_userEmails u) (userEmails (getJob st a))"
  "sendInvites (getJob (updateJobSettings a u st) a) = or_else (p_sendInvites u) (sendInvites (getJob st a))"
  "delayInSeconds (getJob (updateJobSettings a u st) a)
     = or_else (p_delayInSeconds u) (delayInSeconds (getJob st a))"
  by (simp_all add: updateJobSettings_def getJob_def spread_def)

lemma running_has_job: "isJobRunning (getJob st a) \<Longrightarrow> importJobs st a \<noteq> None"
  by (cases "importJobs st a") (auto simp: getJob_def isJobRunning_def initialJobState_def)

lemma captured_used:
  assumes I: "Inv st" and l: "loops st k = Some L" "l_at L = AwaitFetch"
  shows "(requests (step (FetchDone k out) st) = requests st
          \<or> requests (step (FetchDone k out) st)
              = requests st @ [\<lparr> q_user = l_users L ! (l_i L + 1), q_accountId = l_accountId L,
                                  q_sendInvites = sendInvites (l_settings L) \<rparr>])
     \<and> (map_option l_at (loops (step (FetchDone k out) st) k) = Some AwaitCountdown \<longrightarrow>
          countdown (getJob (step (FetchDone k out) st) (l_accountId L))
            = delayInSeconds (l_settings L))"
proof -
  obtain r where x: "jobRefs st (l_accountId L) = Some r"
    "loops (step (FetchDone k out) st) k =
          Some (L\<lparr> l_newResults := l_newResults L @ [result_of (request_for L (l_i L)) out],
                   l_i := l_i L + 1,
                   l_at := next_suspension r (L\<lparr> l_i := l_i L + 1 \<rparr>) \<rparr>)"
    "requests (step (FetchDone k out) st)
          = (if next_suspension r (L\<lparr> l_i := l_i L + 1 \<rparr>) = AwaitFetch
             then requests st @ [request_for L (l_i L + 1)]
             else requests st)"
    using fetch_step_outcome[OF I l, of out] by blast
  have 1: "requests (step (FetchDone k out) st) = requests st
          \<or> requests (step (FetchDone k out) st)
              = requests st @ [\<lparr> q_user = l_users L ! (l_i L + 1), q_accountId = l_accountId L,
                                  q_sendInvites = sendInvites (l_settings L) \<rparr>]"
    using x(3) by (simp add: request_for_def)
  have 2: "countdown (getJob (step (FetchDone k out) st) (l_accountId L))
            = delayInSeconds (l_settings L)"
    if c: "map_option l_at (loops (step (FetchDone k out) st) k) = Some AwaitCountdown"
  proof -
    have ns: "next_suspension r (L\<lparr> l_i := l_i L + 1 \<rparr>) = AwaitCountdown"
      using c x(2) by simp
    then have h: "\<not> ref_isStopped r" "\<not> ref_isPaused r" "l_i L + 1 < length (l_users L)"
      "0 < delayInSeconds (l_settings L)"
      by (auto simp: next_suspension_def split: if_splits)
    from enter_via_fetch[OF I l x(1) h(1,2,3), of out] h(4) show ?thesis by auto
  qed
  show ?thesis using 1 2 by blast
qed

text \<open>
  C10. \<^verbatim>\<open>startImportJob\<close> copies the job of the account, as stored when it is called, into
  \<^verbatim>\<open>currentJobSettings\<close>, and no event ever changes what an invocation has captured. The
  request an invocation sends after a settled request carries the captured \<^verbatim>\<open>sendInvites\<close>,
  and the countdown it enters begins at the captured \<^verbatim>\<open>delayInSeconds\<close>.
  \<^verbatim>\<open>updateJobSettings\<close> with configuration fields only, on a job that is running or
  paused, stores the new values of these fields and leaves what the invocations have
  captured; and it is without effect on the run: after any events that follow, a new start
  for that account excepted, the state is the one reached without the update but for the
  stored configuration of that account and the log of written values (the same invocations
  with the same locals, the same requests, flags, timers and toasts, the same jobs of the
  other accounts, and for that account the same job fields other than the configuration).
\<close>

theorem settings_read_once_at_start:
  "captured (startImportJob a users st0) (nextLoop st0) = Some (getJob st0 a)
   \<and> (captured (after evs0) k = Some c \<longrightarrow> captured (run evs1 (after evs0)) k = Some c)
   \<and> (loops (after evs0) k = Some L \<and> l_at L = AwaitFetch \<longrightarrow>
        captured (after evs0) k = Some (l_settings L)
        \<and> (requests (step (FetchDone k out) (after evs0)) = requests (after evs0)
             \<or> requests (step (FetchDone k out) (after evs0))
                 = requests (after evs0)
                   @ [\<lparr> q_user = l_users L ! (l_i L + 1), q_accountId = l_accountId L,
                         q_sendInvites = sendInvites (l_settings L) \<rparr>])
        \<and> (map_option l_at (loops (step (FetchDone k out) (after evs0)) k) = Some AwaitCountdown
              \<longrightarrow>
             countdown (getJob (step (FetchDone k out) (after evs0)) (l_accountId L))
               = delayInSeconds (l_settings L)))
   \<and> (config_only u \<and> isJobRunning (getJob st a) \<and> Click a ClickStartImport \<notin> set evs \<longrightarrow>
        userEmails (getJob (updateJobSettings a u st) a)
          = or_else (p_userEmails u) (userEmails (getJob st a))
        \<and> sendInvites (getJob (updateJobSettings a u st) a)
          = or_else (p_sendInvites u) (sendInvites (getJob st a))
        \<and> delayInSeconds (getJob (updateJobSettings a u st) a)
          = or_else (p_delayInSeconds u) (delayInSeconds (getJob st a))
        \<and> captured (updateJobSettings a u st) = captured st
        \<and> same_run a (run evs (updateJobSettings a u st)) (run evs st))"
proof -
  have 1: "captured (startImportJob a users st0) (nextLoop st0) = Some (getJob st0 a)"
    by (simp add: captured_start)
  have 2: "captured (after evs0) k = Some c \<longrightarrow> captured (run evs1 (after evs0)) k = Some c"
    using captured_run[OF Inv_after] by blast
  have 3: "same_run a (run evs (updateJobSettings a u st)) (run evs st)"
    if "config_only u" "isJobRunning (getJob st a)" "Click a ClickStartImport \<notin> set evs"
    using that by (intro same_run_run same_run_settings running_has_job)
  have 4: "loops (after evs0) k = Some L \<and> l_at L = AwaitFetch \<longrightarrow>
        captured (after evs0) k = Some (l_settings L)
        \<and> (requests (step (FetchDone k out) (after evs0)) = requests (after evs0)
             \<or> requests (step (FetchDone k out) (after evs0))
                 = requests (after evs0)
                   @ [\<lparr> q_user = l_users L ! (l_i L + 1), q_accountId = l_accountId L,
                         q_sendInvites = sendInvites (l_settings L) \<rparr>])
        \<and> (map_option l_at (loops (step (FetchDone k out) (after evs0)) k) = Some AwaitCountdown
              \<longrightarrow>
             countdown (getJob (step (FetchDone k out) (after evs0)) (l_accountId L))
               = delayInSeconds (l_settings L))"
    using captured_used[OF Inv_after, of evs0 k L out] by (simp add: captured_def)
  show ?thesis using 1 2 3 4 by (simp add: stored_settings)
qed

theorem settings_read_once_at_start_witness:
  "status (getJob (started 2) ''acct'') = Running
   \<and> map_option delayInSeconds (captured (started 2) 0) = Some 2
   \<and> map_option sendInvites (captured (started 2) 0) = Some True
   \<and> delayInSeconds (getJob (updateJobSettings ''acct'' new_settings (started 2)) ''acct'') = 5
   \<and> sendInvites (getJob (updateJobSettings ''acct'' new_settings (started 2)) ''acct'') = False
   \<and> captured (updateJobSettings ''acct'' new_settings (started 2)) = captured (started 2)
   \<and> countdown (getJob (run [FetchDone 0 invited]
                 (updateJobSettings ''acct'' new_settings (started 2))) ''acct'') = 2
   \<and> requests (run rest_of_run (updateJobSettings ''acct'' new_settings (started 2)))
       = requests (run rest_of_run (started 2))
   \<and> map q_sendInvites (requests (run rest_of_run (started 2))) = [True, True]
   \<and> loops (run rest_of_run (updateJobSettings ''acct'' new_settings (started 2)))
       = loops (run rest_of_run (started 2))
   \<and> captured (run rest_of_run (started 2)) 0 = captured (started 2) 0
   \<and> map_option l_at (loops (step (FetchDone 0 invited) (started 2)) 0) = Some AwaitCountdown
   \<and> countdown (getJob (step (FetchDone 0 invited) (started 2)) ''acct'') = 2"
proof -
  have c: "status (getJob (started 2) ''acct'') = Running"
    "map_option delayInSeconds (captured (started 2) 0) = Some 2"
    "map_option sendInvites (captured (started 2) 0) = Some True"
    "map q_sendInvites (requests (run rest_of_run (started 2))) = [True, True]"
    "config_only new_settings"
    "countdown (getJob (run [FetchDone 0 invited]
                 (updateJobSettings ''acct'' new_settings (started 2))) ''acct'') = 2"
    by code_simp+
  have n: "Click ''acct'' ClickStartImport \<notin> set rest_of_run"
    by (simp add: rest_of_run_def)
  have s: "or_else (p_delayInSeconds new_settings) (delayInSeconds (getJob (started 2) ''acct'')) = 5"
    "or_else (p_sendInvites new_settings) (sendInvites (getJob (started 2) ''acct'')) = False"
    by (simp_all add: new_settings_def no_updates_def)
  have r: "isJobRunning (getJob (started 2) ''acct'')" using c(1) by (simp add: isJobRunning_def)
  have t: "delayInSeconds (getJob (updateJobSettings ''acct'' new_settings (started 2)) ''acct'')
          = or_else (p_delayInSeconds new_settings) (delayInSeconds (getJob (started 2) ''acct''))
        \<and> sendInvites (getJob (updateJobSettings ''acct'' new_settings (started 2)) ''acct'')
          = or_else (p_sendInvites new_settings) (sendInvites (getJob (started 2) ''acct''))
        \<and> captured (updateJobSettings ''acct'' new_settings (started 2)) = captured (started 2)
        \<and> same_run ''acct'' (run rest_of_run (updateJobSettings ''acct'' new_settings (started 2)))
            (run rest_of_run (started 2))"
    using settings_read_once_at_start[where a = "''acct''" and u = new_settings
        and st = "started 2" and evs = rest_of_run] c(5) n r
    by blast
  then have e: "requests (run rest_of_run (updateJobSettings ''acct'' new_settings (started 2)))
       = requests (run rest_of_run (started 2))"
    "loops (run rest_of_run (updateJobSettings ''acct'' new_settings (started 2)))
       = loops (run rest_of_run (started 2))"
    by (simp_all add: same_run_def)
  have d: "delayInSeconds (getJob (updateJobSettings ''acct'' new_settings (started 2)) ''acct'') = 5"
    "sendInvites (getJob (updateJobSettings ''acct'' new_settings (started 2)) ''acct'') = False"
    using t s by simp_all
  have k: "captured (updateJobSettings ''acct'' new_settings (started 2)) = captured (started 2)"
    using t by blast
  let ?L = "the (loops (started 2) 0)"
  let ?c = "the (captured (started 2) 0)"
  have g: "map_option l_at (loops (started 2) 0) = Some AwaitFetch"
    "l_accountId ?L = ''acct''" "delayInSeconds (l_settings ?L) = 2"
    "map_option l_at (loops (step (FetchDone 0 invited) (started 2)) 0) = Some AwaitCountdown"
    by code_simp+
  have h1: "captured (started 2) 0 = Some ?c" using c(2) by auto
  have h2: "loops (started 2) 0 = Some ?L \<and> l_at ?L = AwaitFetch" using g(1) by auto
  note T = settings_read_once_at_start[where ?evs0.0 = "[Click ''acct'' (SetUserEmails two_lines),
      Click ''acct'' (SetDelayInSeconds 2), Click ''acct'' ClickStartImport]"
      and k = 0 and c = ?c and ?evs1.0 = rest_of_run and L = ?L and out = invited,
      unfolded started_after[symmetric]]
  have t5: "captured (run rest_of_run (started 2)) 0 = Some ?c"
    using T h1 by blast
  have t6: "countdown (getJob (step (FetchDone 0 invited) (started 2)) (l_accountId ?L))
      = delayInSeconds (l_settings ?L)"
    using T h2 g(4) by blast
  have k5: "captured (run rest_of_run (started 2)) 0 = captured (started 2) 0"
    using t5 h1 by simp
  have k6: "countdown (getJob (step (FetchDone 0 invited) (started 2)) ''acct'') = 2"
    using t6 g(2,3) by simp
  show ?thesis
    by (intro conjI) (fact c(1) c(2) c(3) c(4) c(6) d e k k5 k6 g(4))+
qed

end
